theory Spec2Isabelle
  imports Complex_Main "HOL-Library.Product_Lexorder" "HOL-Library.Option_ord" "HOL-Library.Multiset"
begin

section \<open>Settings (config/settings.py)\<close>

text \<open>
  The class attributes of \<^verbatim>\<open>Settings\<close> that the pipeline reads. The three list caps are
  positive literals that are only used as slice bounds and result counts, so they are
  natural numbers here.
\<close>

definition REDIS_KEY_PREFIX :: string where
  "REDIS_KEY_PREFIX = ''rec:sys:''"

definition REDIS_EXPIRE_SECONDS :: int where
  "REDIS_EXPIRE_SECONDS = 86400"

definition REC_HISTORY_COUNT :: nat where
  "REC_HISTORY_COUNT = 4"

definition REC_DISCOVERY_COUNT :: nat where
  "REC_DISCOVERY_COUNT = 8"

definition REC_RELATED_COUNT :: nat where
  "REC_RELATED_COUNT = 5"

definition TIME_DECAY_WINDOW :: int where
  "TIME_DECAY_WINDOW = 180"

definition TIME_DECAY_RATE :: real where
  "TIME_DECAY_RATE = 0.95"

section \<open>Errors\<close>

text \<open>
  The exceptions that leave \<^verbatim>\<open>load_and_process\<close>, as values. An exception that a
  \<^verbatim>\<open>try\<close> of the engine or of the publisher catches is \<open>None\<close> in the body of that \<^verbatim>\<open>try\<close>.
\<close>

datatype error = DatabaseError | ValueError

section \<open>Data frames and dictionaries\<close>

text \<open>
  A row of the table \<^verbatim>\<open>pre_browser_histories\<close>. Timestamps are seconds on the real line;
  \<open>deleted_at = None\<close> is SQL's NULL. Scores are floating-point numbers in the program and
  real numbers here.
\<close>

record visit =
  user_id :: int
  object_id :: int
  visited_at :: real
  deleted_at :: "real option"

text \<open>A row of the aggregated frame \<^verbatim>\<open>df_grouped\<close> (columns user_id, object_id, score).\<close>

record score_entry =
  g_user_id :: int
  g_object_id :: int
  score :: real

text \<open>
  A Python dict is an association list in insertion order with pairwise distinct keys;
  \<open>map_of\<close> is the lookup.
\<close>

type_synonym ('k, 'v) dict = "('k \<times> 'v) list"

text \<open>
  pandas \<^verbatim>\<open>groupby(keys)[col].sum()\<close>: one row per distinct key, keys ascending (the
  default \<^verbatim>\<open>sort=True\<close>), the value being the sum of the column over the rows of that key.
\<close>

definition groupby_sum :: "('r \<Rightarrow> 'k::linorder) \<Rightarrow> ('r \<Rightarrow> real) \<Rightarrow> 'r list \<Rightarrow> ('k \<times> real) list" where
  "groupby_sum key val rows =
     map (\<lambda>k. (k, sum_list (map val (filter (\<lambda>r. key r = k) rows))))
       (sort (remdups (map key rows)))"

text \<open>pandas \<^verbatim>\<open>Series.unique()\<close>: the distinct values in order of first appearance.\<close>

fun unique :: "'a list \<Rightarrow> 'a list" where
  "unique [] = []"
| "unique (x # xs) = x # unique (filter (\<lambda>y. y \<noteq> x) xs)"

text \<open>pandas \<^verbatim>\<open>Series.map(dict)\<close>: a key that the dict lacks gives NaN, here \<open>None\<close>.\<close>

definition series_map :: "('k, 'v) dict \<Rightarrow> 'k list \<Rightarrow> 'v option list" where
  "series_map d xs = map (map_of d) xs"

section \<open>Sparse matrices (scipy.sparse.csr_matrix)\<close>

text \<open>
  A CSR matrix is its shape and its stored entries \<open>((row, column), value)\<close>, in row-major
  order. The constructor \<^verbatim>\<open>csr_matrix((data, (rows, cols)), shape)\<close> adds up the values given
  for the same position, and raises when an index is not a number or lies outside the
  shape.
\<close>

record csr_matrix =
  shape :: "nat \<times> nat"
  entries :: "((nat \<times> nat) \<times> real) list"

definition csr_from_coo ::
  "real list \<Rightarrow> nat option list \<Rightarrow> nat option list \<Rightarrow> nat \<times> nat \<Rightarrow> error + csr_matrix" where
  "csr_from_coo data rows cols shp =
     (if length rows \<noteq> length data \<or> length cols \<noteq> length data then Inl ValueError
      else if None \<in> set rows \<or> None \<in> set cols then Inl ValueError
      else if (\<exists>r \<in> set rows. fst shp \<le> the r) \<or> (\<exists>c \<in> set cols. snd shp \<le> the c)
        then Inl ValueError
      else Inr \<lparr>shape = shp,
                entries = groupby_sum fst snd (zip (zip (map the rows) (map the cols)) data)\<rparr>)"

text \<open>\<^verbatim>\<open>matrix[i]\<close>: the stored \<open>(column, value)\<close> pairs of row \<open>i\<close>; IndexError out of range.\<close>

definition getrow :: "csr_matrix \<Rightarrow> nat \<Rightarrow> (nat \<times> real) list option" where
  "getrow m i =
     (if i < fst (shape m)
      then Some (map (\<lambda>((r, c), v). (c, v)) (filter (\<lambda>((r, c), v). r = i) (entries m)))
      else None)"

section \<open>DataLoader (core/dataloader.py)\<close>

record data_loader =
  user_id_to_idx :: "(int, nat) dict"
  user_idx_to_id :: "(nat, int) dict"
  item_id_to_idx :: "(int, nat) dict"
  item_idx_to_id :: "(nat, int) dict"

text \<open>\<^verbatim>\<open>DataLoader.__init__\<close>: the four maps start empty.\<close>

definition new_loader :: data_loader where
  "new_loader = \<lparr>user_id_to_idx = [], user_idx_to_id = [], item_id_to_idx = [], item_idx_to_id = []\<rparr>"

text \<open>
  The SQL query: the rows that are not deleted and were visited within the last
  \<open>TIME_DECAY_WINDOW\<close> days of the database clock \<open>sql_now\<close>.
\<close>

definition select_rows :: "real \<Rightarrow> visit list \<Rightarrow> visit list" where
  "select_rows sql_now tbl =
     filter (\<lambda>r. deleted_at r = None \<and>
                 sql_now - real_of_int TIME_DECAY_WINDOW * (24 * 3600) \<le> visited_at r) tbl"

definition days_diff :: "real \<Rightarrow> visit \<Rightarrow> real" where
  "days_diff now r = (now - visited_at r) / (24 * 3600)"

definition weight :: "real \<Rightarrow> visit \<Rightarrow> real" where
  "weight now r = TIME_DECAY_RATE powr days_diff now r"

text \<open>Step 2 of \<^verbatim>\<open>load_and_process\<close>: the aggregated frame \<^verbatim>\<open>df_grouped\<close>.\<close>

definition aggregate :: "real \<Rightarrow> visit list \<Rightarrow> score_entry list" where
  "aggregate now df =
     map (\<lambda>((u, i), s). \<lparr>g_user_id = u, g_object_id = i, score = s\<rparr>)
       (groupby_sum (\<lambda>r. (user_id r, object_id r)) (weight now) df)"

text \<open>\<^verbatim>\<open>{x: i for i, x in enumerate(xs)}\<close> and \<^verbatim>\<open>{i: x for i, x in enumerate(xs)}\<close>.\<close>

definition id_to_idx :: "int list \<Rightarrow> (int, nat) dict" where
  "id_to_idx xs = zip xs [0..<length xs]"

definition idx_to_id :: "int list \<Rightarrow> (nat, int) dict" where
  "idx_to_id xs = zip [0..<length xs] xs"

text \<open>
  \<^verbatim>\<open>load_and_process\<close>. The table is \<open>None\<close> when the database cannot be read; \<open>sql_now\<close> is
  the database's \<^verbatim>\<open>NOW()\<close> and \<open>now\<close> is \<^verbatim>\<open>pd.Timestamp.now()\<close>. The result is the aggregated
  frame, the matrix and the loader with its maps assigned.
\<close>

definition load_and_process ::
  "visit list option \<Rightarrow> real \<Rightarrow> real \<Rightarrow> data_loader \<Rightarrow>
     error + (score_entry list \<times> csr_matrix \<times> data_loader)" where
  "load_and_process db sql_now now ld =
     (case db of
        None \<Rightarrow> Inl DatabaseError
      | Some tbl \<Rightarrow>
          (let df = select_rows sql_now tbl in
          if df = [] then Inr ([], \<lparr>shape = (0, 0), entries = []\<rparr>, ld)
          else
            let df_grouped = aggregate now df;
                unique_users = unique (map g_user_id df_grouped);
                unique_items = unique (map g_object_id df_grouped);
                ld' = \<lparr>user_id_to_idx = id_to_idx unique_users,
                       user_idx_to_id = idx_to_id unique_users,
                       item_id_to_idx = id_to_idx unique_items,
                       item_idx_to_id = idx_to_id unique_items\<rparr>;
                users_indices = series_map (user_id_to_idx ld') (map g_user_id df_grouped);
                items_indices = series_map (item_id_to_idx ld') (map g_object_id df_grouped);
                scores = map score df_grouped
            in (case csr_from_coo scores users_indices items_indices
                       (length unique_users, length unique_items) of
                  Inl e \<Rightarrow> Inl e
                | Inr sparse_user_item \<Rightarrow> Inr (df_grouped, sparse_user_item, ld'))))"

section \<open>The factor model (library implicit)\<close>

text \<open>
  Training is numerical and belongs to the library; a fitted model is taken as given.
  It knows how many users and items it was fitted on and scores every user-item and
  item-item pair (the products of the factor vectors).
\<close>

record als_model =
  n_users :: nat
  n_items :: nat
  user_item_score :: "nat \<Rightarrow> nat \<Rightarrow> real"
  item_item_score :: "nat \<Rightarrow> nat \<Rightarrow> real"

text \<open>
  The library's top-\<open>k\<close> selection, which both queries end in. The scores of the columns
  \<open>0, 1, \<dots>\<close> are scanned in this order and a heap keeps the best pairs (score, column)
  seen so far, at most \<open>k\<close> of them: while the heap is not full every pair enters; into a
  full heap a pair enters only with a score above the least score in it, and pushes the
  least pair out. Pairs are compared by score first and column second. \<open>results\<close> is
  the content of the heap in ascending order, so its head is the least pair. (The
  engine asks for \<open>REC_DISCOVERY_COUNT\<close> and \<open>REC_RELATED_COUNT + 1\<close> indices, never for
  none; for \<open>k = 0\<close> the model selects nothing.)
\<close>

definition select_step :: "nat \<Rightarrow> ('s::linorder \<times> nat) list \<Rightarrow> 's \<times> nat \<Rightarrow> ('s \<times> nat) list" where
  "select_step k results p =
     (if length results < k then insort p results
      else (case results of
              [] \<Rightarrow> []
            | least # rest \<Rightarrow> if fst least < fst p then insort p rest else results))"

text \<open>
  The columns of the heap are written, best pair first, into a result array of \<open>k\<close>
  entries that was created with zeros: where the matrix has fewer than \<open>k\<close> columns the
  rest of the result is the index 0.
\<close>

definition select :: "nat \<Rightarrow> ('s::linorder) list \<Rightarrow> nat list" where
  "select k scores =
     (let results = foldl (select_step k) [] (zip scores [0..<length scores])
      in map snd (rev results) @ replicate (k - length results) 0)"

text \<open>
  \<^verbatim>\<open>model.recommend(userid, user_items, N, filter_already_liked_items=True)\<close>: every item
  index is scored for the user, the score of an index stored in the row \<open>user_items\<close> is
  replaced by the least value there is (\<open>None\<close> here, which is below every \<open>Some s\<close>), and
  the selection returns \<open>N\<close> indices. An index of the row is not removed: it comes back
  when fewer than \<open>N\<close> other items exist. \<open>None\<close> as a result stands for the library
  raising (an index outside the user factors).
\<close>

definition recommend :: "als_model \<Rightarrow> nat \<Rightarrow> (nat \<times> real) list \<Rightarrow> nat \<Rightarrow> nat list option" where
  "recommend mdl userid user_items N =
     (if n_users mdl \<le> userid then None
      else Some (select N
                   (map (\<lambda>i. if i \<in> fst ` set user_items then None
                              else Some (user_item_score mdl userid i))
                      [0..<n_items mdl])))"

text \<open>\<^verbatim>\<open>model.similar_items(itemid, N)\<close>: every item index is scored against \<open>itemid\<close>, the
  item itself among them, and the selection returns \<open>N\<close> indices.\<close>

definition similar_items :: "als_model \<Rightarrow> nat \<Rightarrow> nat \<Rightarrow> nat list option" where
  "similar_items mdl itemid N =
     (if n_items mdl \<le> itemid then None
      else Some (select N (map (item_item_score mdl itemid) [0..<n_items mdl])))"

section \<open>RecommendationEngine (core/engine.py)\<close>

record engine =
  user_map :: "(int, nat) dict"
  item_inv_map :: "(nat, int) dict"
  history_df :: "score_entry list"
  user_history_index :: "(int, int list) dict"
  popular_items :: "int list"
  model :: "als_model option"
  is_trained :: bool
  user_items_matrix :: "csr_matrix option"
  item_id_map_cache :: "(int, nat) dict option"

text \<open>
  \<^verbatim>\<open>sort_values(['user_id', 'score'], ascending=[True, False])\<close>. A sort on several
  columns is a lexicographic indirect sort, which is stable; descending order on the
  score is ascending order on its negation.
\<close>

definition sort_values_user_score :: "score_entry list \<Rightarrow> score_entry list" where
  "sort_values_user_score df = sort_key (\<lambda>r. (g_user_id r, - score r)) df"

text \<open>\<^verbatim>\<open>groupby(key)[col].apply(list).to_dict()\<close>: for each key, ascending, the column's
  values in row order.\<close>

definition groupby_list :: "('r \<Rightarrow> 'k::linorder) \<Rightarrow> ('r \<Rightarrow> 'v) \<Rightarrow> 'r list \<Rightarrow> ('k, 'v list) dict" where
  "groupby_list key col rows =
     map (\<lambda>k. (k, map col (filter (\<lambda>r. key r = k) rows))) (sort (remdups (map key rows)))"

text \<open>
  \<^verbatim>\<open>RecommendationEngine.__init__\<close>. The popularity series is sorted by
  \<^verbatim>\<open>Series.sort_values(ascending=False)\<close> with the default \<^verbatim>\<open>kind='quicksort'\<close>, which is
  not a stable sort: the routine is the parameter \<open>sort_values_desc\<close>, and what is known
  of it is that its result is a rearrangement of its argument in descending order of the
  values (see \<open>sorts_descending\<close>).
\<close>

definition new_engine ::
  "((int \<times> real) list \<Rightarrow> (int \<times> real) list) \<Rightarrow> (int, nat) dict \<Rightarrow> (nat, int) dict \<Rightarrow>
     score_entry list \<Rightarrow> engine" where
  "new_engine sort_values_desc um iim df =
     (let sorted_df = sort_values_user_score df;
          popular_series = sort_values_desc (groupby_sum g_object_id score df)
      in \<lparr>user_map = um, item_inv_map = iim, history_df = df,
          user_history_index = groupby_list g_user_id g_object_id sorted_df,
          popular_items = map fst popular_series,
          model = None, is_trained = False, user_items_matrix = None,
          item_id_map_cache = None\<rparr>)"

definition sorts_descending :: "((int \<times> real) list \<Rightarrow> (int \<times> real) list) \<Rightarrow> (int \<times> real) list \<Rightarrow> bool" where
  "sorts_descending srt xs \<longleftrightarrow> mset (srt xs) = mset xs \<and> sorted (rev (map snd (srt xs)))"

text \<open>\<^verbatim>\<open>train\<close>: \<open>fit\<close> is the library's training, \<open>None\<close> when it raises.\<close>

definition train :: "(csr_matrix \<Rightarrow> als_model option) \<Rightarrow> engine \<Rightarrow> csr_matrix \<Rightarrow> engine option" where
  "train fit e m =
     (case fit m of
        None \<Rightarrow> None
      | Some mdl \<Rightarrow> Some (e\<lparr>user_items_matrix := Some m, model := Some mdl, is_trained := True\<rparr>))"

text \<open>\<^verbatim>\<open>d.get(k, [])\<close>.\<close>

definition dict_get :: "('k, 'v list) dict \<Rightarrow> 'k \<Rightarrow> 'v list" where
  "dict_get d k = (case map_of d k of None \<Rightarrow> [] | Some v \<Rightarrow> v)"

definition get_history_rec :: "engine \<Rightarrow> int \<Rightarrow> int list" where
  "get_history_rec e uid = take REC_HISTORY_COUNT (dict_get (user_history_index e) uid)"

text \<open>\<^verbatim>\<open>[d[k] for k in ks]\<close>: KeyError (\<open>None\<close>) at the first key that \<open>d\<close> lacks.\<close>

fun lookup_all :: "('k, 'v) dict \<Rightarrow> 'k list \<Rightarrow> 'v list option" where
  "lookup_all d [] = Some []"
| "lookup_all d (k # ks) =
     (case map_of d k of
        None \<Rightarrow> None
      | Some v \<Rightarrow> (case lookup_all d ks of None \<Rightarrow> None | Some vs \<Rightarrow> Some (v # vs)))"

text \<open>The body of the \<^verbatim>\<open>try\<close> of \<^verbatim>\<open>get_discovery_rec\<close>; \<open>None\<close> is any exception.\<close>

definition discovery_try :: "engine \<Rightarrow> int \<Rightarrow> int list option" where
  "discovery_try e uid =
     (case map_of (user_map e) uid of
        None \<Rightarrow> None
      | Some user_idx \<Rightarrow>
         (case user_items_matrix e of
            None \<Rightarrow> None
          | Some m \<Rightarrow>
             (case getrow m user_idx of
                None \<Rightarrow> None
              | Some row \<Rightarrow>
                 (case model e of
                    None \<Rightarrow> None
                  | Some mdl \<Rightarrow>
                     (case recommend mdl user_idx row REC_DISCOVERY_COUNT of
                        None \<Rightarrow> None
                      | Some ids \<Rightarrow> lookup_all (item_inv_map e) ids)))))"

definition get_discovery_rec :: "engine \<Rightarrow> int \<Rightarrow> int list" where
  "get_discovery_rec e uid =
     (if \<not> is_trained e \<or> map_of (user_map e) uid = None then []
      else (case discovery_try e uid of None \<Rightarrow> [] | Some rec_ids \<Rightarrow> rec_ids))"

text \<open>\<^verbatim>\<open>xs[:n]\<close> for a Python integer \<open>n\<close>: a negative bound counts from the end.\<close>

definition slice_to :: "'a list \<Rightarrow> int \<Rightarrow> 'a list" where
  "slice_to xs n = (if n < 0 then take (nat (int (length xs) + n)) xs else take (nat n) xs)"

definition get_popular_items :: "engine \<Rightarrow> int \<Rightarrow> int list" where
  "get_popular_items e limit = slice_to (popular_items e) limit"

text \<open>\<^verbatim>\<open>d[k] = v\<close> on a dict, and \<^verbatim>\<open>{v: k for k, v in d.items()}\<close>.\<close>

definition dict_set :: "('k, 'v) dict \<Rightarrow> 'k \<Rightarrow> 'v \<Rightarrow> ('k, 'v) dict" where
  "dict_set d k v =
     (if k \<in> fst ` set d then map (\<lambda>(k', v'). if k' = k then (k', v) else (k', v')) d
      else d @ [(k, v)])"

definition invert_dict :: "('k, 'v) dict \<Rightarrow> ('v, 'k) dict" where
  "invert_dict d = foldl (\<lambda>acc (k, v). dict_set acc v k) [] d"

text \<open>The loop of \<^verbatim>\<open>get_related_items\<close> that drops the item itself.\<close>

fun related_loop :: "(nat, int) dict \<Rightarrow> nat \<Rightarrow> nat list \<Rightarrow> int list \<Rightarrow> int list option" where
  "related_loop iim item_idx [] rec_ids = Some rec_ids"
| "related_loop iim item_idx (idx # ids) rec_ids =
     (if idx \<noteq> item_idx
      then (case map_of iim idx of
              None \<Rightarrow> None
            | Some v \<Rightarrow> related_loop iim item_idx ids (rec_ids @ [v]))
      else related_loop iim item_idx ids rec_ids)"

definition related_try :: "engine \<Rightarrow> nat \<Rightarrow> int list option" where
  "related_try e item_idx =
     (case model e of
        None \<Rightarrow> None
      | Some mdl \<Rightarrow>
         (case similar_items mdl item_idx (REC_RELATED_COUNT + 1) of
            None \<Rightarrow> None
          | Some ids \<Rightarrow>
             (case related_loop (item_inv_map e) item_idx ids [] of
                None \<Rightarrow> None
              | Some rec_ids \<Rightarrow> Some (take REC_RELATED_COUNT rec_ids))))"

text \<open>
  \<^verbatim>\<open>get_related_items\<close> assigns \<^verbatim>\<open>self._item_id_map_cache\<close> on its first call on a trained
  engine, so it returns the engine too.
\<close>

definition get_related_items :: "engine \<Rightarrow> int \<Rightarrow> int list \<times> engine" where
  "get_related_items e item_id =
     (if \<not> is_trained e then ([], e)
      else
        let cache = (case item_id_map_cache e of
                       None \<Rightarrow> invert_dict (item_inv_map e)
                     | Some c \<Rightarrow> c);
            e' = e\<lparr>item_id_map_cache := Some cache\<rparr>
        in (case map_of cache item_id of
              None \<Rightarrow> ([], e')
            | Some item_idx \<Rightarrow>
               (case related_try e' item_idx of
                  None \<Rightarrow> ([], e')
                | Some rec_ids \<Rightarrow> (rec_ids, e'))))"

section \<open>The cache (Redis)\<close>

text \<open>
  A Redis database holding lists: a key has a list of values and, when one is set, a
  time-to-live in seconds. The pushed integers are stored in their decimal spelling; the
  model keeps the integers.
\<close>

type_synonym redis = "string \<rightharpoonup> (int list \<times> int option)"

text \<open>
  The ids that the program hands to the client are of two kinds. A Python \<^verbatim>\<open>int\<close> is what
  \<^verbatim>\<open>apply(list)\<close> puts into the history lists; a \<^verbatim>\<open>numpy.int64\<close> is what \<open>item_inv_map\<close>
  holds, its values being the elements of the array that \<^verbatim>\<open>unique()\<close> returns, and so
  what the discovery and related lists consist of.
\<close>

datatype pyval = PyInt int | NpInt64 int

fun int_of :: "pyval \<Rightarrow> int" where
  "int_of (PyInt i) = i"
| "int_of (NpInt64 i) = i"

datatype command = DELETE string | RPUSH string "pyval list" | EXPIRE string int

text \<open>
  DEL removes the key. RPUSH appends to the list at the key and creates it when absent
  (without values the server rejects the command). EXPIRE sets the time-to-live of an
  existing key and removes the key when the time is not positive.
\<close>

fun exec_command :: "redis \<Rightarrow> command \<Rightarrow> redis" where
  "exec_command s (DELETE k) = s(k := None)"
| "exec_command s (RPUSH k vs) =
     (if vs = [] then s
      else (case s k of
              None \<Rightarrow> s(k \<mapsto> (map int_of vs, None))
            | Some (xs, t) \<Rightarrow> s(k \<mapsto> (xs @ map int_of vs, t))))"
| "exec_command s (EXPIRE k t) =
     (case s k of
        None \<Rightarrow> s
      | Some (xs, _) \<Rightarrow> if t \<le> 0 then s(k := None) else s(k \<mapsto> (xs, Some t)))"

text \<open>The server running the commands of a transaction, in the order they were queued.\<close>

definition run_commands :: "command list \<Rightarrow> redis \<Rightarrow> redis" where
  "run_commands cmds s = foldl exec_command s cmds"

text \<open>
  The client's encoder takes bytes, strings, Python ints and floats; for any other
  value, a \<^verbatim>\<open>numpy.int64\<close> among them, it raises \<^verbatim>\<open>DataError\<close>.
\<close>

fun encodable :: "pyval \<Rightarrow> bool" where
  "encodable (PyInt i) = True"
| "encodable (NpInt64 i) = False"

fun packable :: "command \<Rightarrow> bool" where
  "packable (RPUSH k vs) = list_all encodable vs"
| "packable (DELETE k) = True"
| "packable (EXPIRE k t) = True"

text \<open>
  \<^verbatim>\<open>pipe.execute()\<close>: the pipeline only buffers the commands; \<^verbatim>\<open>execute\<close> packs all of
  them, which encodes their arguments, and then sends them as one transaction. Where an
  argument cannot be encoded the call raises (\<open>None\<close>) before anything is sent.
\<close>

definition execute :: "command list \<Rightarrow> redis \<Rightarrow> redis option" where
  "execute cmds s = (if list_all packable cmds then Some (run_commands cmds s) else None)"

section \<open>Batch job (main.py)\<close>

text \<open>\<^verbatim>\<open>str\<close> of an integer, as the f-strings of the keys use it.\<close>

definition digit_char :: "nat \<Rightarrow> char" where
  "digit_char d = char_of (48 + d)"

fun str_nat :: "nat \<Rightarrow> string" where
  "str_nat n = (if n < 10 then [digit_char n] else str_nat (n div 10) @ [digit_char (n mod 10)])"

declare str_nat.simps [simp del]

definition str_int :: "int \<Rightarrow> string" where
  "str_int i = (if i < 0 then CHR ''-'' # str_nat (nat (- i)) else str_nat (nat i))"

definition key_hist :: "int \<Rightarrow> string" where
  "key_hist uid = REDIS_KEY_PREFIX @ ''user:'' @ str_int uid @ '':history''"

definition key_disc :: "int \<Rightarrow> string" where
  "key_disc uid = REDIS_KEY_PREFIX @ ''user:'' @ str_int uid @ '':discovery''"

definition key_related :: "int \<Rightarrow> string" where
  "key_related iid = REDIS_KEY_PREFIX @ ''item:'' @ str_int iid @ '':related''"

text \<open>The key that the read side (api/app.py) falls back to.\<close>

definition key_popular :: string where
  "key_popular = REDIS_KEY_PREFIX @ ''global:popular''"

text \<open>What \<^verbatim>\<open>save_results_to_redis\<close> queues for one key and its new list.\<close>

definition key_commands :: "string \<Rightarrow> pyval list \<Rightarrow> command list" where
  "key_commands k xs =
     DELETE k # (if xs \<noteq> [] then [RPUSH k xs, EXPIRE k REDIS_EXPIRE_SECONDS] else [])"

text \<open>The loop over \<^verbatim>\<open>user_recs.items()\<close>; \<open>None\<close> is the KeyError of a missing list.\<close>

fun user_commands :: "(int, (string, pyval list) dict) dict \<Rightarrow> command list option" where
  "user_commands [] = Some []"
| "user_commands ((uid, recs) # rest) =
     (case map_of recs ''history'' of
        None \<Rightarrow> None
      | Some h \<Rightarrow>
         (case map_of recs ''discovery'' of
            None \<Rightarrow> None
          | Some d \<Rightarrow>
             (case user_commands rest of
                None \<Rightarrow> None
              | Some cmds \<Rightarrow> Some (key_commands (key_hist uid) h @ key_commands (key_disc uid) d @ cmds))))"

text \<open>The loop over \<^verbatim>\<open>item_recs.items()\<close>.\<close>

fun item_commands :: "(int, pyval list) dict \<Rightarrow> command list" where
  "item_commands [] = []"
| "item_commands ((iid, related_ids) # rest) = key_commands (key_related iid) related_ids @ item_commands rest"

text \<open>
  \<^verbatim>\<open>save_results_to_redis\<close>, on a reachable server. The whole body is one \<^verbatim>\<open>try\<close> whose
  \<^verbatim>\<open>except Exception\<close> logs and returns: an exception while the pipeline is filled, or
  one raised by \<^verbatim>\<open>pipe.execute()\<close>, leaves the cache as it was.
\<close>

definition save_results_to_redis ::
  "(int, (string, pyval list) dict) dict \<Rightarrow> (int, pyval list) dict \<Rightarrow> redis \<Rightarrow> redis" where
  "save_results_to_redis user_recs item_recs r =
     (case user_commands user_recs of
        None \<Rightarrow> r
      | Some cmds \<Rightarrow>
         (case execute (cmds @ item_commands item_recs) r of
            None \<Rightarrow> r
          | Some r' \<Rightarrow> r'))"

text \<open>The loop of \<^verbatim>\<open>main\<close> over the active items, which threads the engine. The ids of a
  related list are values of \<open>item_inv_map\<close>.\<close>

fun related_for_items :: "engine \<Rightarrow> int list \<Rightarrow> (int, pyval list) dict \<times> engine" where
  "related_for_items e [] = ([], e)"
| "related_for_items e (iid # iids) =
     (let (rec_related, e') = get_related_items e iid;
          (rest, e'') = related_for_items e' iids
      in ((iid, map NpInt64 rec_related) # rest, e''))"

text \<open>How a run ends: the three aborts leave with \<^verbatim>\<open>sys.exit(1)\<close>.\<close>

datatype outcome = LoadFailed error | NoData | TrainFailed | Completed

fun exit_code :: "outcome \<Rightarrow> nat" where
  "exit_code Completed = 0"
| "exit_code (LoadFailed e) = 1"
| "exit_code NoData = 1"
| "exit_code TrainFailed = 1"

text \<open>
  \<^verbatim>\<open>main\<close>: the outcome, the engine if one was built and trained, and the cache after
  the run. The ids of a history list are Python ints, those of a discovery list are
  values of \<open>item_inv_map\<close>.
\<close>

definition main ::
  "(csr_matrix \<Rightarrow> als_model option) \<Rightarrow> ((int \<times> real) list \<Rightarrow> (int \<times> real) list) \<Rightarrow>
     visit list option \<Rightarrow> real \<Rightarrow> real \<Rightarrow> redis \<Rightarrow> outcome \<times> engine option \<times> redis" where
  "main fit sort_values_desc db sql_now now r =
     (case load_and_process db sql_now now new_loader of
        Inl e \<Rightarrow> (LoadFailed e, None, r)
      | Inr (df_grouped, sparse_matrix, loader) \<Rightarrow>
          if fst (shape sparse_matrix) = 0 then (NoData, None, r)
          else
            (case train fit (new_engine sort_values_desc (user_id_to_idx loader)
                               (item_idx_to_id loader) df_grouped) sparse_matrix of
               None \<Rightarrow> (TrainFailed, None, r)
             | Some engine \<Rightarrow>
                 (let active_users = unique (map g_user_id df_grouped);
                      user_recommendations =
                        map (\<lambda>uid. (uid, [(''history'', map PyInt (get_history_rec engine uid)),
                                           (''discovery'',
                                            map NpInt64 (get_discovery_rec engine uid))]))
                          active_users;
                      active_items = unique (map g_object_id df_grouped);
                      (item_recommendations, engine') = related_for_items engine active_items
                  in (Completed, Some engine',
                      save_results_to_redis user_recommendations item_recommendations r))))"

section \<open>Auxiliary notions for the properties\<close>

text \<open>
  The reverse item map that \<^verbatim>\<open>get_related_items\<close> caches is either not built yet or the
  inversion of \<open>item_inv_map\<close>: nothing else ever assigns it.
\<close>

definition cache_ok :: "engine \<Rightarrow> bool" where
  "cache_ok e \<longleftrightarrow>
     item_id_map_cache e = None \<or> item_id_map_cache e = Some (invert_dict (item_inv_map e))"

subsection \<open>A small batch\<close>

text \<open>
  Two visits of user 1 to item 100, one now and one a day ago, a visit of user 1 to item
  200 that is 200 days old, and visits of user 2 to items 100 and 200.
\<close>

definition demo_now :: real where
  "demo_now = 17280000"

definition demo_table :: "visit list" where
  "demo_table =
     [\<lparr>user_id = 1, object_id = 100, visited_at = 17280000, deleted_at = None\<rparr>,
      \<lparr>user_id = 1, object_id = 100, visited_at = 17193600, deleted_at = None\<rparr>,
      \<lparr>user_id = 1, object_id = 200, visited_at = 0, deleted_at = None\<rparr>,
      \<lparr>user_id = 2, object_id = 100, visited_at = 17280000, deleted_at = None\<rparr>,
      \<lparr>user_id = 2, object_id = 200, visited_at = 17280000, deleted_at = None\<rparr>]"

definition demo_df :: "score_entry list" where
  "demo_df =
     [\<lparr>g_user_id = 1, g_object_id = 100, score = 1.95\<rparr>,
      \<lparr>g_user_id = 2, g_object_id = 100, score = 1\<rparr>,
      \<lparr>g_user_id = 2, g_object_id = 200, score = 1\<rparr>]"

definition demo_matrix :: csr_matrix where
  "demo_matrix = \<lparr>shape = (2, 2), entries = [((0, 0), 1.95), ((1, 0), 1), ((1, 1), 1)]\<rparr>"

definition demo_loader :: data_loader where
  "demo_loader =
     \<lparr>user_id_to_idx = [(1, 0), (2, 1)], user_idx_to_id = [(0, 1), (1, 2)],
      item_id_to_idx = [(100, 0), (200, 1)], item_idx_to_id = [(0, 100), (1, 200)]\<rparr>"

definition demo_model :: als_model where
  "demo_model =
     \<lparr>n_users = 2, n_items = 2, user_item_score = (\<lambda>u i. real i),
      item_item_score = (\<lambda>i j. if i = j then 1 else 0)\<rparr>"

text \<open>
  A sort of the totals into descending order, for the two batches here. It keeps tied
  entries in their order; in neither batch are two totals equal, so that every sort into
  descending order returns the same.
\<close>

definition sort_desc_stable :: "(int \<times> real) list \<Rightarrow> (int \<times> real) list" where
  "sort_desc_stable xs = sort_key (\<lambda>p. - snd p) xs"

definition demo_engine :: engine where
  "demo_engine =
     (new_engine sort_desc_stable (user_id_to_idx demo_loader) (item_idx_to_id demo_loader) demo_df)
       \<lparr>user_items_matrix := Some demo_matrix, model := Some demo_model, is_trained := True\<rparr>"

subsection \<open>A batch with eight items\<close>

text \<open>
  User 7 visits the items 11, 12 and 13, and user 8 the items 14 to 18; the visit to item
  11 is made now and each further one a day earlier than the one before.
\<close>

definition wide_table :: "visit list" where
  "wide_table =
     [\<lparr>user_id = 7, object_id = 11, visited_at = 17280000, deleted_at = None\<rparr>,
      \<lparr>user_id = 7, object_id = 12, visited_at = 17193600, deleted_at = None\<rparr>,
      \<lparr>user_id = 7, object_id = 13, visited_at = 17107200, deleted_at = None\<rparr>,
      \<lparr>user_id = 8, object_id = 14, visited_at = 17020800, deleted_at = None\<rparr>,
      \<lparr>user_id = 8, object_id = 15, visited_at = 16934400, deleted_at = None\<rparr>,
      \<lparr>user_id = 8, object_id = 16, visited_at = 16848000, deleted_at = None\<rparr>,
      \<lparr>user_id = 8, object_id = 17, visited_at = 16761600, deleted_at = None\<rparr>,
      \<lparr>user_id = 8, object_id = 18, visited_at = 16675200, deleted_at = None\<rparr>]"

definition wide_df :: "score_entry list" where
  "wide_df =
     [\<lparr>g_user_id = 7, g_object_id = 11, score = 1\<rparr>,
      \<lparr>g_user_id = 7, g_object_id = 12, score = 0.95\<rparr>,
      \<lparr>g_user_id = 7, g_object_id = 13, score = 0.9025\<rparr>,
      \<lparr>g_user_id = 8, g_object_id = 14, score = 0.857375\<rparr>,
      \<lparr>g_user_id = 8, g_object_id = 15, score = 0.81450625\<rparr>,
      \<lparr>g_user_id = 8, g_object_id = 16, score = 0.7737809375\<rparr>,
      \<lparr>g_user_id = 8, g_object_id = 17, score = 0.735091890625\<rparr>,
      \<lparr>g_user_id = 8, g_object_id = 18, score = 0.69833729609375\<rparr>]"

definition wide_matrix :: csr_matrix where
  "wide_matrix =
     \<lparr>shape = (2, 8),
      entries = [((0, 0), 1),
                 ((0, 1), 0.95),
                 ((0, 2), 0.9025),
                 ((1, 3), 0.857375),
                 ((1, 4), 0.81450625),
                 ((1, 5), 0.7737809375),
                 ((1, 6), 0.735091890625),
                 ((1, 7), 0.69833729609375)]\<rparr>"

definition wide_loader :: data_loader where
  "wide_loader =
     \<lparr>user_id_to_idx = [(7, 0), (8, 1)], user_idx_to_id = [(0, 7), (1, 8)],
      item_id_to_idx = [(11, 0), (12, 1), (13, 2), (14, 3), (15, 4), (16, 5), (17, 6), (18, 7)],
      item_idx_to_id = [(0, 11), (1, 12), (2, 13), (3, 14), (4, 15), (5, 16), (6, 17), (7, 18)]\<rparr>"

definition wide_model :: als_model where
  "wide_model =
     \<lparr>n_users = 2, n_items = 8, user_item_score = (\<lambda>u i. real i),
      item_item_score = (\<lambda>i j. if i = j then 1 else 0)\<rparr>"

definition wide_engine :: engine where
  "wide_engine =
     (new_engine sort_desc_stable (user_id_to_idx wide_loader) (item_idx_to_id wide_loader) wide_df)
       \<lparr>user_items_matrix := Some wide_matrix, model := Some wide_model, is_trained := True\<rparr>"

text \<open>A table without a selectable row: one visit is too old, the other is deleted.\<close>

definition stale_table :: "visit list" where
  "stale_table =
     [\<lparr>user_id = 1, object_id = 200, visited_at = 0, deleted_at = None\<rparr>,
      \<lparr>user_id = 1, object_id = 100, visited_at = 17280000, deleted_at = Some 17280000\<rparr>]"

definition index_of :: "int list \<Rightarrow> int \<Rightarrow> nat" where
  "index_of xs x = the (map_of (id_to_idx xs) x)"

text \<open>
  The history list as the specification words it: the user's rows, by score descending
  and, for equal scores, by item id ascending; then the item ids.
\<close>

definition spec_history :: "score_entry list \<Rightarrow> int \<Rightarrow> int list" where
  "spec_history df u =
     map g_object_id (sort_key (\<lambda>r. (- score r, g_object_id r)) (filter (\<lambda>r. g_user_id r = u) df))"

text \<open>Reading a decimal numeral back, the key that a command addresses, and the commands
  for a list of keys with their new lists.\<close>

definition nat_of_digits :: "string \<Rightarrow> nat" where
  "nat_of_digits s = foldl (\<lambda>a c. 10 * a + (of_char c - 48)) 0 s"

fun cmd_key :: "command \<Rightarrow> string" where
  "cmd_key (DELETE k) = k"
| "cmd_key (RPUSH k vs) = k"
| "cmd_key (EXPIRE k t) = k"

definition plan_commands :: "(string \<times> pyval list) list \<Rightarrow> command list" where
  "plan_commands plan = concat (map (\<lambda>(k, xs). key_commands k xs) plan)"

text \<open>
  What a published list leaves at its key, and the keys that \<open>save_results_to_redis\<close>
  processes with their new lists, in the order of the two loops.
\<close>

definition cache_value :: "pyval list \<Rightarrow> (int list \<times> int option) option" where
  "cache_value xs = (if xs = [] then None else Some (map int_of xs, Some REDIS_EXPIRE_SECONDS))"

definition user_plan :: "(int, (string, pyval list) dict) dict \<Rightarrow> (string \<times> pyval list) list" where
  "user_plan user_recs =
     concat (map (\<lambda>(uid, recs). [(key_hist uid, dict_get recs ''history''),
                                  (key_disc uid, dict_get recs ''discovery'')]) user_recs)"

definition item_plan :: "(int, pyval list) dict \<Rightarrow> (string \<times> pyval list) list" where
  "item_plan item_recs = map (\<lambda>(iid, related_ids). (key_related iid, related_ids)) item_recs"

text \<open>The lists of a plan hold Python ints only.\<close>

definition plain_lists :: "(string \<times> pyval list) list \<Rightarrow> bool" where
  "plain_lists plan \<longleftrightarrow> list_all (\<lambda>(k, xs). list_all encodable xs) plan"

text \<open>The results of the small batch, as \<open>main\<close> collects them, and a cache with old
  entries.\<close>

definition demo_user_recs :: "(int, (string, pyval list) dict) dict" where
  "demo_user_recs =
     [(1, [(''history'', [PyInt 100]),
           (''discovery'', map NpInt64 [200, 100, 100, 100, 100, 100, 100, 100])]),
      (2, [(''history'', [PyInt 100, PyInt 200]),
           (''discovery'', map NpInt64 [200, 100, 100, 100, 100, 100, 100, 100])])]"

definition demo_item_recs :: "(int, pyval list) dict" where
  "demo_item_recs =
     [(100, [NpInt64 200]), (200, map NpInt64 [100, 100, 100, 100, 100])]"

definition old_cache :: redis where
  "old_cache = [key_disc 2 \<mapsto> ([300], Some 5), key_hist 1 \<mapsto> ([300, 400], None)]"

section \<open>Properties\<close>

subsection \<open>Dictionaries\<close>

lemma fst_set_dict_set: "fst ` set (dict_set d k v) = insert k (fst ` set d)"
  by (auto simp: dict_set_def image_iff split: if_splits) force+

lemma set_dict_set: "set (dict_set d k v) \<subseteq> insert (k, v) (set d)"
  by (auto simp: dict_set_def split: if_splits)

lemma fst_set_foldl_dict_set:
  "fst ` set (foldl (\<lambda>acc (k, v). dict_set acc v k) acc d) = fst ` set acc \<union> snd ` set d"
proof (induction d arbitrary: acc)
  case Nil
  then show ?case by simp
next
  case (Cons p d)
  obtain k v where p: "p = (k, v)" by (cases p)
  have "fst ` set (foldl (\<lambda>acc (k, v). dict_set acc v k) (dict_set acc v k) d)
          = fst ` set (dict_set acc v k) \<union> snd ` set d"
    by (rule Cons.IH)
  then show ?case
    by (simp add: p fst_set_dict_set)
qed

lemma set_foldl_dict_set:
  "set (foldl (\<lambda>acc (k, v). dict_set acc v k) acc d) \<subseteq> set acc \<union> (\<lambda>(k, v). (v, k)) ` set d"
proof (induction d arbitrary: acc)
  case Nil
  then show ?case by simp
next
  case (Cons p d)
  obtain k v where p: "p = (k, v)" by (cases p)
  have "set (foldl (\<lambda>acc (k, v). dict_set acc v k) (dict_set acc v k) d)
          \<subseteq> set (dict_set acc v k) \<union> (\<lambda>(k, v). (v, k)) ` set d"
    by (rule Cons.IH)
  with set_dict_set [of acc v k] show ?case
    by (auto simp: p)
qed

lemma map_of_invert_dict_None: "map_of (invert_dict d) v = None \<longleftrightarrow> v \<notin> snd ` set d"
  by (simp add: map_of_eq_None_iff invert_dict_def fst_set_foldl_dict_set)

lemma map_of_invert_dict_Some: "map_of (invert_dict d) v = Some k \<Longrightarrow> (k, v) \<in> set d"
  using set_foldl_dict_set [of "[]" d] by (auto simp: invert_dict_def dest!: map_of_SomeD)

lemma inj_dict_key: "distinct (map snd d) \<Longrightarrow> (k, v) \<in> set d \<Longrightarrow> (k', v) \<in> set d \<Longrightarrow> k = k'"
  by (metis (no_types, lifting) distinct_map inj_onD snd_conv prod.inject)

subsection \<open>The small batch, evaluated\<close>

lemma demo_select:
  "select_rows demo_now demo_table =
     [\<lparr>user_id = 1, object_id = 100, visited_at = 17280000, deleted_at = None\<rparr>,
      \<lparr>user_id = 1, object_id = 100, visited_at = 17193600, deleted_at = None\<rparr>,
      \<lparr>user_id = 2, object_id = 100, visited_at = 17280000, deleted_at = None\<rparr>,
      \<lparr>user_id = 2, object_id = 200, visited_at = 17280000, deleted_at = None\<rparr>]"
  by (simp add: select_rows_def demo_table_def demo_now_def TIME_DECAY_WINDOW_def)

lemma demo_aggregate: "aggregate demo_now (select_rows demo_now demo_table) = demo_df"
  unfolding demo_select
  by (simp add: aggregate_def groupby_sum_def weight_def days_diff_def demo_now_def
      TIME_DECAY_RATE_def demo_df_def less_eq_prod_def)

lemma demo_load:
  "load_and_process (Some demo_table) demo_now demo_now new_loader =
     Inr (demo_df, demo_matrix, demo_loader)"
proof -
  have "select_rows demo_now demo_table \<noteq> []"
    by (simp add: demo_select)
  then show ?thesis
    by (simp add: load_and_process_def Let_def demo_aggregate)
      (simp add: demo_df_def id_to_idx_def idx_to_id_def series_map_def csr_from_coo_def
        groupby_sum_def demo_matrix_def demo_loader_def less_eq_prod_def)
qed

lemma demo_train:
  "train (\<lambda>m. Some demo_model)
     (new_engine sort_desc_stable (user_id_to_idx demo_loader) (item_idx_to_id demo_loader) demo_df)
     demo_matrix = Some demo_engine"
  by (simp add: train_def demo_engine_def)

lemma demo_engine_maps:
  "item_inv_map demo_engine = [(0, 100), (1, 200)]"
  "user_map demo_engine = [(1, 0), (2, 1)]"
  "item_id_map_cache demo_engine = None"
  "is_trained demo_engine"
  "model demo_engine = Some demo_model"
  "user_items_matrix demo_engine = Some demo_matrix"
  "history_df demo_engine = demo_df"
  by (simp_all add: demo_engine_def new_engine_def demo_loader_def Let_def)

subsection \<open>The library's selection\<close>

lemma distinct_map_snd_insort:
  "distinct (map snd (insort p xs)) \<longleftrightarrow> snd p \<notin> snd ` set xs \<and> distinct (map snd xs)"
proof -
  have "mset (map snd (insort p xs)) = mset (snd p # map snd xs)" by simp
  from mset_eq_imp_distinct_iff [OF this] show ?thesis by simp
qed

lemma set_map_snd_insort: "snd ` set (insort p xs) = insert (snd p) (snd ` set xs)"
  by (simp add: set_insort_key)

lemma select_step_props:
  assumes "snd p \<notin> snd ` set acc" and "distinct (map snd acc)" and "length acc \<le> k"
  shows "distinct (map snd (select_step k acc p))"
    and "snd ` set (select_step k acc p) \<subseteq> insert (snd p) (snd ` set acc)"
    and "length (select_step k acc p) = min k (Suc (length acc))"
proof -
  show "distinct (map snd (select_step k acc p))"
  proof (cases acc)
    case Nil
    then show ?thesis by (simp add: select_step_def)
  next
    case (Cons least rest)
    with assms(1,2) have "snd p \<notin> snd ` set rest" and "distinct (map snd rest)" by auto
    with assms(1,2) show ?thesis
      unfolding select_step_def Cons
      by (simp add: distinct_map_snd_insort del: insort_key.simps)
  qed
  show "snd ` set (select_step k acc p) \<subseteq> insert (snd p) (snd ` set acc)"
  proof (cases acc)
    case Nil
    then show ?thesis by (simp add: select_step_def)
  next
    case (Cons least rest)
    show ?thesis
      unfolding select_step_def Cons
      by (simp add: set_map_snd_insort del: insort_key.simps) blast
  qed
  show "length (select_step k acc p) = min k (Suc (length acc))"
    using assms(3) by (cases acc) (simp_all add: select_step_def del: insort_key.simps)
qed

lemma foldl_select_step:
  assumes "distinct (map snd acc @ map snd ps)" and "length acc \<le> k"
  shows "distinct (map snd (foldl (select_step k) acc ps)) \<and>
         snd ` set (foldl (select_step k) acc ps) \<subseteq> snd ` set acc \<union> snd ` set ps \<and>
         length (foldl (select_step k) acc ps) = min k (length acc + length ps)"
  using assms
proof (induction ps arbitrary: acc)
  case Nil
  then show ?case by simp
next
  case (Cons p ps)
  from Cons.prems have new: "snd p \<notin> snd ` set acc" and d: "distinct (map snd acc)"
    and dps: "distinct (map snd ps)" and pps: "snd p \<notin> snd ` set ps"
    and disj: "snd ` set acc \<inter> snd ` set ps = {}"
    by auto
  note st = select_step_props [OF new d Cons.prems(2)]
  have "snd ` set (select_step k acc p) \<inter> snd ` set ps
      \<subseteq> insert (snd p) (snd ` set acc) \<inter> snd ` set ps"
    using st(2) by (rule Int_mono) simp
  also have "\<dots> = {}" using pps disj by simp
  finally have "snd ` set (select_step k acc p) \<inter> snd ` set ps = {}" by simp
  with st(1) dps have "distinct (map snd (select_step k acc p) @ map snd ps)"
    by simp
  moreover have "length (select_step k acc p) \<le> k"
    using st(3) by simp
  ultimately have "distinct (map snd (foldl (select_step k) (select_step k acc p) ps)) \<and>
      snd ` set (foldl (select_step k) (select_step k acc p) ps)
        \<subseteq> snd ` set (select_step k acc p) \<union> snd ` set ps \<and>
      length (foldl (select_step k) (select_step k acc p) ps)
        = min k (length (select_step k acc p) + length ps)"
    by (rule Cons.IH)
  then have ih1: "distinct (map snd (foldl (select_step k) (select_step k acc p) ps))"
    and ih2: "snd ` set (foldl (select_step k) (select_step k acc p) ps)
        \<subseteq> snd ` set (select_step k acc p) \<union> snd ` set ps"
    and ih3: "length (foldl (select_step k) (select_step k acc p) ps)
        = min k (length (select_step k acc p) + length ps)"
    by blast+
  have "snd ` set (p # ps) = insert (snd p) (snd ` set ps)" by simp
  with ih2 st(2) have "snd ` set (foldl (select_step k) (select_step k acc p) ps)
      \<subseteq> snd ` set acc \<union> snd ` set (p # ps)"
    by blast
  moreover have "min k (min k (Suc (length acc)) + length ps) = min k (length acc + length (p # ps))"
    by simp
  with ih3 st(3) have "length (foldl (select_step k) (select_step k acc p) ps)
      = min k (length acc + length (p # ps))"
    by (simp only:)
  ultimately show ?case using ih1 by (simp only: foldl_Cons simp_thms)
qed

lemma select_results:
  fixes scores :: "('s::linorder) list" and k :: nat
  defines "results \<equiv> foldl (select_step k) [] (zip scores [0..<length scores])"
  shows "distinct (map snd results)" and "snd ` set results \<subseteq> {0..<length scores}"
    and "length results = min k (length scores)"
proof -
  have "distinct (map snd [] @ map snd (zip scores [0..<length scores]))" by simp
  from foldl_select_step [OF this, of k]
  have r: "distinct (map snd results)"
    "snd ` set results \<subseteq> snd ` set (zip scores [0..<length scores])"
    "length results = min k (length scores)"
    by (simp_all add: results_def)
  have m: "map snd (zip scores [0..<length scores]) = [0..<length scores]" by simp
  have "snd ` set (zip scores [0..<length scores]) = set (map snd (zip scores [0..<length scores]))"
    by (simp only: set_map)
  also have "\<dots> = {0..<length scores}" unfolding m by simp
  finally show "snd ` set results \<subseteq> {0..<length scores}" using r(2) by simp
  from r show "distinct (map snd results)" and "length results = min k (length scores)"
    by simp_all
qed

lemma select_length: "length (select k scores) = k"
proof -
  define results where "results = foldl (select_step k) [] (zip scores [0..<length scores])"
  from select_results(3) [of k scores] have "length results \<le> k"
    by (simp add: results_def)
  then have "length (map snd (rev results) @ replicate (k - length results) 0) = k"
    by simp
  then show ?thesis
    unfolding select_def Let_def results_def .
qed

lemma select_range:
  assumes "i \<in> set (select k scores)"
  shows "i = 0 \<or> i < length scores"
proof -
  define results where "results = foldl (select_step k) [] (zip scores [0..<length scores])"
  from assms have "i \<in> set (map snd (rev results) @ replicate (k - length results) 0)"
    unfolding select_def Let_def results_def .
  then have "i \<in> snd ` set results \<or> i = 0"
    by auto
  with select_results(2) [of k scores] show ?thesis
    unfolding results_def by auto
qed

lemma select_distinct:
  assumes "k \<le> length scores"
  shows "distinct (select k scores)"
proof -
  define results where "results = foldl (select_step k) [] (zip scores [0..<length scores])"
  from select_results(1,3) [of k scores] assms
  have d: "distinct (map snd results)" and l: "length results = k"
    by (simp_all add: results_def)
  from d have "distinct (rev (map snd results))" by simp
  then have "distinct (map snd (rev results))" by (simp only: rev_map)
  with l have "distinct (map snd (rev results) @ replicate (k - length results) 0)"
    by simp
  then show ?thesis
    unfolding select_def Let_def results_def .
qed

lemma demo_similar:
  "similar_items demo_model 0 6 = Some [0, 1, 0, 0, 0, 0]"
  "similar_items demo_model (Suc 0) 6 = Some [1, 0, 0, 0, 0, 0]"
  by (simp_all add: similar_items_def select_def select_step_def demo_model_def numeral_2_eq_2
      less_eq_prod_def less_prod_def numeral_eq_Suc)

lemma demo_recommend:
  "recommend demo_model 0 [(0, x)] 8 = Some [1, 0, 0, 0, 0, 0, 0, 0]"
  "recommend demo_model (Suc 0) [(0, x), (Suc 0, y)] 8 = Some [1, 0, 0, 0, 0, 0, 0, 0]"
  by (simp_all add: recommend_def select_def select_step_def demo_model_def numeral_2_eq_2
      less_eq_prod_def less_prod_def numeral_eq_Suc)

subsection \<open>Related items\<close>

lemma related_loop_set:
  "related_loop iim item_idx ids acc = Some out \<Longrightarrow>
     set out \<subseteq> set acc \<union> {v. \<exists>idx \<in> set ids. idx \<noteq> item_idx \<and> map_of iim idx = Some v}"
proof (induction ids arbitrary: acc)
  case Nil
  then show ?case by simp
next
  case (Cons idx ids)
  show ?case
  proof (cases "idx = item_idx")
    case True
    with Cons.prems have "related_loop iim item_idx ids acc = Some out" by simp
    from Cons.IH [OF this] show ?thesis by auto
  next
    case False
    with Cons.prems obtain v where v: "map_of iim idx = Some v"
      and r: "related_loop iim item_idx ids (acc @ [v]) = Some out"
      by (auto split: option.splits)
    from Cons.IH [OF r] v False show ?thesis by auto
  qed
qed

text \<open>
  C3. On an engine whose index-to-id item map sends different indices to different
  items, the related-items operation never returns the queried item itself, and it
  returns at most \<open>REC_RELATED_COUNT\<close> items.
\<close>

theorem related_excludes_self:
  assumes inj: "distinct (map snd (item_inv_map e))" and cache: "cache_ok e"
  shows "item_id \<notin> set (fst (get_related_items e item_id)) \<and>
         length (fst (get_related_items e item_id)) \<le> REC_RELATED_COUNT"
proof (cases "is_trained e")
  case False
  then show ?thesis by (simp add: get_related_items_def)
next
  case True
  define e' where "e' = e\<lparr>item_id_map_cache := Some (invert_dict (item_inv_map e))\<rparr>"
  from cache have c: "(case item_id_map_cache e of None \<Rightarrow> invert_dict (item_inv_map e) | Some c \<Rightarrow> c)
      = invert_dict (item_inv_map e)"
    by (auto simp: cache_ok_def)
  show ?thesis
  proof (cases "map_of (invert_dict (item_inv_map e)) item_id")
    case None
    with True c show ?thesis by (simp add: get_related_items_def Let_def)
  next
    case (Some item_idx)
    then have mem: "(item_idx, item_id) \<in> set (item_inv_map e)"
      by (rule map_of_invert_dict_Some)
    show ?thesis
    proof (cases "related_try e' item_idx")
      case None
      with True c Some show ?thesis by (simp add: get_related_items_def Let_def e'_def)
    next
      case (Some rec_ids)
      then obtain mdl ids out where "related_loop (item_inv_map e) item_idx ids [] = Some out"
        and rec_ids: "rec_ids = take REC_RELATED_COUNT out"
        by (auto simp: related_try_def e'_def split: option.splits)
      from related_loop_set [OF this(1)]
      have "set out \<subseteq> {v. \<exists>idx. idx \<noteq> item_idx \<and> map_of (item_inv_map e) idx = Some v}" by auto
      then have "item_id \<notin> set out"
        using inj_dict_key [OF inj mem] by (auto dest!: map_of_SomeD)
      then have "item_id \<notin> set rec_ids" unfolding rec_ids by (auto dest: in_set_takeD)
      moreover have "length rec_ids \<le> REC_RELATED_COUNT" unfolding rec_ids by simp
      moreover have "fst (get_related_items e item_id) = rec_ids"
        using True c \<open>map_of (invert_dict (item_inv_map e)) item_id = Some item_idx\<close> Some
        by (simp add: get_related_items_def Let_def e'_def)
      ultimately show ?thesis by simp
    qed
  qed
qed

subsection \<open>Empty data\<close>

text \<open>
  C7. When no row of the table passes the query's filter, \<open>load_and_process\<close> returns the
  empty frame and a matrix of shape (0, 0), and \<open>main\<close> ends with exit status 1 without
  an engine having been built or trained and with the cache as it was.
\<close>

theorem no_data_aborts:
  assumes "select_rows sql_now tbl = []"
  shows "load_and_process (Some tbl) sql_now now ld = Inr ([], \<lparr>shape = (0, 0), entries = []\<rparr>, ld) \<and>
         main fit srt (Some tbl) sql_now now r = (NoData, None, r) \<and>
         exit_code (fst (main fit srt (Some tbl) sql_now now r)) = 1"
  using assms by (simp add: load_and_process_def main_def)

theorem no_data_aborts_witness:
  "select_rows demo_now stale_table = [] \<and>
   load_and_process (Some stale_table) demo_now demo_now new_loader =
     Inr ([], \<lparr>shape = (0, 0), entries = []\<rparr>, new_loader) \<and>
   main (\<lambda>m. Some demo_model) sort_desc_stable (Some stale_table) demo_now demo_now Map.empty =
     (NoData, None, Map.empty)"
proof -
  have h: "select_rows demo_now stale_table = []"
    by (simp add: select_rows_def stale_table_def demo_now_def TIME_DECAY_WINDOW_def)
  from no_data_aborts [OF h, of demo_now new_loader "\<lambda>m. Some demo_model" sort_desc_stable Map.empty] h
  show ?thesis by simp
qed

lemma demo_related: "fst (get_related_items demo_engine 100) = [200]"
  by (simp add: get_related_items_def demo_engine_maps Let_def invert_dict_def dict_set_def
      related_try_def demo_similar REC_RELATED_COUNT_def)

theorem related_excludes_self_witness:
  "distinct (map snd (item_inv_map demo_engine)) \<and> cache_ok demo_engine \<and>
   fst (get_related_items demo_engine 100) = [200] \<and>
   100 \<notin> set (fst (get_related_items demo_engine 100)) \<and>
   length (fst (get_related_items demo_engine 100)) \<le> REC_RELATED_COUNT"
proof -
  have inj: "distinct (map snd (item_inv_map demo_engine))"
    by (simp add: demo_engine_maps)
  have cache: "cache_ok demo_engine"
    by (simp add: cache_ok_def demo_engine_maps)
  from related_excludes_self [OF inj cache, of 100] inj cache demo_related
  show ?thesis by simp
qed

subsection \<open>Unknown users and items\<close>

text \<open>
  C6, as the code has it. For a user that the history index lacks, \<open>get_history_rec\<close> is
  empty; for a user that \<open>user_map\<close> lacks, \<open>get_discovery_rec\<close> is empty; for an item that
  is no value of \<open>item_inv_map\<close>, \<open>get_related_items\<close> is empty. None of them raises. The
  first two assign no attribute of the engine; \<open>get_related_items\<close> on a trained engine
  assigns the cached reverse item map and nothing else.
\<close>

theorem unknown_entity_empty:
  assumes "cache_ok e"
  shows "(map_of (user_history_index e) uid = None \<longrightarrow> get_history_rec e uid = []) \<and>
         (map_of (user_map e) uid = None \<longrightarrow> get_discovery_rec e uid = []) \<and>
         (item_id \<notin> snd ` set (item_inv_map e) \<longrightarrow>
            fst (get_related_items e item_id) = [] \<and>
            snd (get_related_items e item_id) =
              (if is_trained e then e\<lparr>item_id_map_cache := Some (invert_dict (item_inv_map e))\<rparr>
               else e))"
proof -
  from assms have c: "(case item_id_map_cache e of None \<Rightarrow> invert_dict (item_inv_map e) | Some c \<Rightarrow> c)
      = invert_dict (item_inv_map e)"
    by (auto simp: cache_ok_def)
  have "get_history_rec e uid = []" if "map_of (user_history_index e) uid = None"
    using that by (simp add: get_history_rec_def dict_get_def)
  moreover have "get_discovery_rec e uid = []" if "map_of (user_map e) uid = None"
    using that by (simp add: get_discovery_rec_def)
  moreover have "get_related_items e item_id =
      ([], if is_trained e then e\<lparr>item_id_map_cache := Some (invert_dict (item_inv_map e))\<rparr> else e)"
    if "item_id \<notin> snd ` set (item_inv_map e)"
  proof -
    from that have "map_of (invert_dict (item_inv_map e)) item_id = None"
      by (simp add: map_of_invert_dict_None)
    then show ?thesis
      by (simp add: get_related_items_def Let_def c)
  qed
  ultimately show ?thesis by simp
qed

theorem unknown_entity_empty_witness:
  "cache_ok demo_engine \<and> map_of (user_history_index demo_engine) 3 = None \<and>
   map_of (user_map demo_engine) 3 = None \<and> 300 \<notin> snd ` set (item_inv_map demo_engine) \<and>
   get_history_rec demo_engine 3 = [] \<and> get_discovery_rec demo_engine 3 = [] \<and>
   fst (get_related_items demo_engine 300) = []"
proof -
  have cache: "cache_ok demo_engine"
    by (simp add: cache_ok_def demo_engine_maps)
  have h: "map_of (user_history_index demo_engine) 3 = None"
    by (simp add: demo_engine_def new_engine_def Let_def groupby_list_def demo_df_def
        sort_values_user_score_def less_eq_prod_def)
  have d: "map_of (user_map demo_engine) 3 = None"
    by (simp add: demo_engine_maps)
  have i: "300 \<notin> snd ` set (item_inv_map demo_engine)"
    by (simp add: demo_engine_maps)
  from unknown_entity_empty [OF cache, of 3 300] cache h d i
  show ?thesis by simp
qed

text \<open>
  The first call of \<open>get_related_items\<close> on the trained engine of the small batch, for the
  unknown item 300, returns a different engine: the reverse item map is now cached.
\<close>

theorem related_changes_state_counterexample:
  "300 \<notin> snd ` set (item_inv_map demo_engine) \<and>
   snd (get_related_items demo_engine 300) \<noteq> demo_engine"
proof -
  have "item_id_map_cache (snd (get_related_items demo_engine 300)) \<noteq> item_id_map_cache demo_engine"
    by (simp add: get_related_items_def demo_engine_maps Let_def split: option.splits)
  then have "snd (get_related_items demo_engine 300) \<noteq> demo_engine"
    by auto
  then show ?thesis by (simp add: demo_engine_maps)
qed

subsection \<open>Grouping, distinct values and index maps\<close>

lemma groupby_sum_keys: "map fst (groupby_sum key val rows) = sort (remdups (map key rows))"
  by (simp add: groupby_sum_def comp_def)

lemma groupby_sum_mem:
  "(k, s) \<in> set (groupby_sum key val rows) \<longleftrightarrow>
     k \<in> key ` set rows \<and> s = sum_list (map val (filter (\<lambda>r. key r = k) rows))"
  by (auto simp: groupby_sum_def)

lemma sort_remdups_cong:
  fixes xs ys :: "'a::linorder list"
  assumes "set xs = set ys"
  shows "sort (remdups xs) = sort (remdups ys)"
proof (rule sorted_distinct_set_unique)
  show "set (sort (remdups xs)) = set (sort (remdups ys))"
    using assms by simp
qed simp_all

lemma sum_list_filter_mset_cong:
  fixes val :: "'r \<Rightarrow> real"
  assumes "mset xs = mset ys"
  shows "sum_list (map val (filter P xs)) = sum_list (map val (filter P ys))"
proof -
  have "mset (map val (filter P xs)) = mset (map val (filter P ys))"
    using assms by (metis mset_filter mset_map)
  then show ?thesis
    by (metis sum_mset_sum_list)
qed

lemma groupby_sum_mset_cong:
  assumes "mset xs = mset ys"
  shows "groupby_sum key val xs = groupby_sum key val ys"
proof -
  from assms have "set xs = set ys"
    by (rule mset_eq_setD)
  then have "sort (remdups (map key xs)) = sort (remdups (map key ys))"
    by (intro sort_remdups_cong) simp
  moreover have "sum_list (map val (filter (\<lambda>r. key r = k) xs))
      = sum_list (map val (filter (\<lambda>r. key r = k) ys))" for k
    using assms by (rule sum_list_filter_mset_cong)
  ultimately show ?thesis
    by (simp add: groupby_sum_def)
qed

lemma filter_key_single:
  "distinct (map key rows) \<Longrightarrow> r \<in> set rows \<Longrightarrow> filter (\<lambda>r'. key r' = key r) rows = [r]"
proof (induction rows)
  case Nil
  then show ?case by simp
next
  case (Cons a rows)
  show ?case
  proof (cases "a = r")
    case True
    with Cons.prems have "\<forall>r' \<in> set rows. key r' \<noteq> key r" by (auto simp: image_iff)
    then have "filter (\<lambda>r'. key r' = key r) rows = []" by (simp add: filter_empty_conv)
    with True show ?thesis by simp
  next
    case False
    with Cons.prems have "r \<in> set rows" "key a \<noteq> key r" by auto
    with Cons show ?thesis by simp
  qed
qed

lemma groupby_sum_distinct:
  assumes "distinct (map key rows)"
  shows "mset (groupby_sum key val rows) = mset (map (\<lambda>r. (key r, val r)) rows)"
proof -
  let ?g = "\<lambda>k. (k, sum_list (map val (filter (\<lambda>r. key r = k) rows)))"
  have "mset (groupby_sum key val rows) = image_mset ?g (mset (sort (map key rows)))"
    using assms by (simp add: groupby_sum_def distinct_remdups_id del: mset_sort)
  also have "\<dots> = image_mset ?g (mset (map key rows))"
    by simp
  also have "\<dots> = image_mset (\<lambda>r. ?g (key r)) (mset rows)"
    by (simp add: multiset.map_comp comp_def)
  also have "\<dots> = image_mset (\<lambda>r. (key r, val r)) (mset rows)"
    by (rule image_mset_cong) (simp add: filter_key_single [OF assms])
  finally show ?thesis by simp
qed

lemma unique_set [simp]: "set (unique xs) = set xs"
  by (induction xs rule: unique.induct) auto

lemma unique_distinct [simp]: "distinct (unique xs)"
  by (induction xs rule: unique.induct) auto

lemma id_to_idx_SomeD:
  "map_of (id_to_idx xs) x = Some i \<Longrightarrow> i < length xs \<and> xs ! i = x"
  by (auto simp: id_to_idx_def in_set_zip dest!: map_of_SomeD)

lemma idx_to_id_SomeD:
  "map_of (idx_to_id xs) i = Some x \<Longrightarrow> i < length xs \<and> xs ! i = x"
  by (auto simp: idx_to_id_def in_set_zip dest!: map_of_SomeD)

lemma idx_to_id_nth: "i < length xs \<Longrightarrow> map_of (idx_to_id xs) i = Some (xs ! i)"
  using map_of_zip_nth [of "[0..<length xs]" xs i] by (simp add: idx_to_id_def)

lemma id_to_idx_index_of:
  "x \<in> set xs \<Longrightarrow> map_of (id_to_idx xs) x = Some (index_of xs x)"
proof -
  assume "x \<in> set xs"
  then have "map_of (id_to_idx xs) x \<noteq> None"
    by (simp add: id_to_idx_def map_of_zip_is_None)
  then show ?thesis
    by (auto simp: index_of_def)
qed

lemma index_of_less: "x \<in> set xs \<Longrightarrow> index_of xs x < length xs"
  using id_to_idx_index_of [of x xs] id_to_idx_SomeD by blast

lemma nth_index_of: "x \<in> set xs \<Longrightarrow> xs ! index_of xs x = x"
  using id_to_idx_index_of [of x xs] id_to_idx_SomeD by blast

lemma index_of_inj: "x \<in> set xs \<Longrightarrow> y \<in> set xs \<Longrightarrow> index_of xs x = index_of xs y \<Longrightarrow> x = y"
  by (metis nth_index_of)

lemma idx_to_id_values: "map snd (idx_to_id xs) = xs"
  by (simp add: idx_to_id_def)

subsection \<open>The loader\<close>

lemma aggregate_pairs:
  "map (\<lambda>r. (g_user_id r, g_object_id r)) (aggregate now df) =
     sort (remdups (map (\<lambda>v. (user_id v, object_id v)) df))"
proof -
  have "map (\<lambda>r. (g_user_id r, g_object_id r)) (aggregate now df) =
      map fst (groupby_sum (\<lambda>v. (user_id v, object_id v)) (weight now) df)"
    by (simp add: aggregate_def comp_def case_prod_beta)
  then show ?thesis
    by (simp add: groupby_sum_keys)
qed

lemma aggregate_distinct_pairs: "distinct (map (\<lambda>r. (g_user_id r, g_object_id r)) (aggregate now df))"
  by (simp add: aggregate_pairs)

lemma aggregate_sorted_pairs: "sorted (map (\<lambda>r. (g_user_id r, g_object_id r)) (aggregate now df))"
  by (simp add: aggregate_pairs)

lemma aggregate_score:
  assumes "r \<in> set (aggregate now df)"
  shows "score r = sum_list (map (weight now)
           (filter (\<lambda>v. user_id v = g_user_id r \<and> object_id v = g_object_id r) df))"
proof -
  from assms obtain u i s where
    mem: "((u, i), s) \<in> set (groupby_sum (\<lambda>v. (user_id v, object_id v)) (weight now) df)"
    and r: "r = \<lparr>g_user_id = u, g_object_id = i, score = s\<rparr>"
    by (auto simp: aggregate_def)
  from mem have "s = sum_list (map (weight now) (filter (\<lambda>v. (user_id v, object_id v) = (u, i)) df))"
    by (simp add: groupby_sum_mem)
  with r show ?thesis by simp
qed

lemma aggregate_pair_set:
  "(\<lambda>r. (g_user_id r, g_object_id r)) ` set (aggregate now df) = (\<lambda>v. (user_id v, object_id v)) ` set df"
proof -
  have "set (map (\<lambda>r. (g_user_id r, g_object_id r)) (aggregate now df)) =
      set (map (\<lambda>v. (user_id v, object_id v)) df)"
    by (simp only: aggregate_pairs set_sort set_remdups)
  then show ?thesis by simp
qed

lemma aggregate_mset_cong: "mset xs = mset ys \<Longrightarrow> aggregate now xs = aggregate now ys"
  by (simp add: aggregate_def groupby_sum_mset_cong [of xs ys])

lemma aggregate_Nil_iff: "aggregate now df = [] \<longleftrightarrow> df = []"
proof -
  have "aggregate now df = [] \<longleftrightarrow> map (\<lambda>r. (g_user_id r, g_object_id r)) (aggregate now df) = []"
    by simp
  also have "\<dots> \<longleftrightarrow> set (sort (remdups (map (\<lambda>v. (user_id v, object_id v)) df))) = {}"
    by (simp only: aggregate_pairs set_empty)
  also have "\<dots> \<longleftrightarrow> df = []"
    by simp
  finally show ?thesis .
qed

lemma weight_pos: "0 < weight now v"
  by (simp add: weight_def TIME_DECAY_RATE_def)

lemma sum_list_pos:
  fixes xs :: "real list"
  shows "xs \<noteq> [] \<Longrightarrow> \<forall>x \<in> set xs. 0 < x \<Longrightarrow> 0 < sum_list xs"
  by (induction xs) (auto intro: add_pos_nonneg sum_list_nonneg less_imp_le)

lemma aggregate_score_pos:
  assumes "r \<in> set (aggregate now df)"
  shows "0 < score r"
proof -
  let ?vs = "filter (\<lambda>v. user_id v = g_user_id r \<and> object_id v = g_object_id r) df"
  from assms have "(g_user_id r, g_object_id r) \<in> (\<lambda>v. (user_id v, object_id v)) ` set df"
    using aggregate_pair_set [of now df] by blast
  then have "?vs \<noteq> []"
    by (auto simp: filter_empty_conv)
  then have "0 < sum_list (map (weight now) ?vs)"
    by (intro sum_list_pos) (auto simp: weight_pos)
  with aggregate_score [OF assms] show ?thesis by simp
qed

lemma series_map_index_of:
  "set xs \<subseteq> set ys \<Longrightarrow> series_map (id_to_idx ys) xs = map (\<lambda>x. Some (index_of ys x)) xs"
  by (auto simp: series_map_def id_to_idx_index_of)

lemma zip_map3: "zip (zip (map f xs) (map g xs)) (map h xs) = map (\<lambda>x. ((f x, g x), h x)) xs"
  by (induction xs) auto

lemma csr_from_coo_frame:
  assumes "\<forall>x \<in> set xs. f x < m" and "\<forall>x \<in> set xs. g x < n"
  shows "csr_from_coo (map h xs) (map (\<lambda>x. Some (f x)) xs) (map (\<lambda>x. Some (g x)) xs) (m, n) =
     Inr \<lparr>shape = (m, n), entries = groupby_sum fst snd (map (\<lambda>x. ((f x, g x), h x)) xs)\<rparr>"
proof -
  have "zip (zip (map the (map (\<lambda>x. Some (f x)) xs)) (map the (map (\<lambda>x. Some (g x)) xs))) (map h xs)
      = map (\<lambda>x. ((f x, g x), h x)) xs"
    by (simp add: comp_def zip_map3)
  moreover have "\<not> ((\<exists>r \<in> set (map (\<lambda>x. Some (f x)) xs). m \<le> the r) \<or>
                    (\<exists>c \<in> set (map (\<lambda>x. Some (g x)) xs). n \<le> the c))"
    using assms by (auto simp: not_le)
  moreover have "None \<notin> set (map (\<lambda>x. Some (f x)) xs)" "None \<notin> set (map (\<lambda>x. Some (g x)) xs)"
    by auto
  ultimately show ?thesis
    unfolding csr_from_coo_def by (simp only: length_map fst_conv snd_conv simp_thms if_False)
qed

text \<open>What \<open>load_and_process\<close> returns when the query selects at least one row.\<close>

lemma load_nonempty:
  assumes ne: "select_rows sql_now tbl \<noteq> []"
  shows "load_and_process (Some tbl) sql_now now ld =
     (let df_grouped = aggregate now (select_rows sql_now tbl);
          uu = unique (map g_user_id df_grouped);
          ui = unique (map g_object_id df_grouped)
      in Inr (df_grouped,
              \<lparr>shape = (length uu, length ui),
               entries = groupby_sum fst snd
                 (map (\<lambda>r. ((index_of uu (g_user_id r), index_of ui (g_object_id r)), score r))
                    df_grouped)\<rparr>,
              \<lparr>user_id_to_idx = id_to_idx uu, user_idx_to_id = idx_to_id uu,
               item_id_to_idx = id_to_idx ui, item_idx_to_id = idx_to_id ui\<rparr>))"
proof -
  define dfg where "dfg = aggregate now (select_rows sql_now tbl)"
  define uu where "uu = unique (map g_user_id dfg)"
  define ui where "ui = unique (map g_object_id dfg)"
  have u: "series_map (id_to_idx uu) (map g_user_id dfg)
      = map (\<lambda>r. Some (index_of uu (g_user_id r))) dfg"
    by (simp add: series_map_index_of uu_def comp_def)
  have i: "series_map (id_to_idx ui) (map g_object_id dfg)
      = map (\<lambda>r. Some (index_of ui (g_object_id r))) dfg"
    by (simp add: series_map_index_of ui_def comp_def)
  have "csr_from_coo (map score dfg) (map (\<lambda>r. Some (index_of uu (g_user_id r))) dfg)
      (map (\<lambda>r. Some (index_of ui (g_object_id r))) dfg) (length uu, length ui) =
     Inr \<lparr>shape = (length uu, length ui),
          entries = groupby_sum fst snd
            (map (\<lambda>r. ((index_of uu (g_user_id r), index_of ui (g_object_id r)), score r)) dfg)\<rparr>"
    by (rule csr_from_coo_frame) (auto simp: uu_def ui_def intro!: index_of_less)
  with ne u i show ?thesis
    by (simp add: load_and_process_def Let_def dfg_def [symmetric] uu_def [symmetric]
        ui_def [symmetric])
qed

lemma load_total: "\<exists>df m ld'. load_and_process (Some tbl) sql_now now ld = Inr (df, m, ld')"
proof (cases "select_rows sql_now tbl = []")
  case True
  then show ?thesis by (simp add: load_and_process_def)
next
  case False
  from load_nonempty [OF this] show ?thesis by (simp add: Let_def)
qed

lemma load_mset_cong:
  assumes "mset tbl' = mset tbl"
  shows "load_and_process (Some tbl') sql_now now ld = load_and_process (Some tbl) sql_now now ld"
proof -
  from assms have sel: "mset (select_rows sql_now tbl') = mset (select_rows sql_now tbl)"
    by (simp add: select_rows_def)
  then have agg: "aggregate now (select_rows sql_now tbl') = aggregate now (select_rows sql_now tbl)"
    by (rule aggregate_mset_cong)
  show ?thesis
  proof (cases "select_rows sql_now tbl = []")
    case True
    with sel have "select_rows sql_now tbl' = []" by simp
    with True show ?thesis by (simp add: load_and_process_def)
  next
    case False
    with sel have "select_rows sql_now tbl' \<noteq> []" by auto
    from load_nonempty [OF this] load_nonempty [OF False] agg show ?thesis by simp
  qed
qed

lemma positions_distinct:
  assumes "distinct (map (\<lambda>r. (g_user_id r, g_object_id r)) dfg)"
    and "g_user_id ` set dfg \<subseteq> set uu" and "g_object_id ` set dfg \<subseteq> set ui"
  shows "distinct (map (\<lambda>r. (index_of uu (g_user_id r), index_of ui (g_object_id r))) dfg)"
proof -
  let ?h = "\<lambda>(u, i). (index_of uu u, index_of ui i)"
  have "inj_on ?h (set (map (\<lambda>r. (g_user_id r, g_object_id r)) dfg))"
    using assms(2,3) by (auto simp: inj_on_def dest!: index_of_inj [rotated 2])
  with assms(1) have "distinct (map ?h (map (\<lambda>r. (g_user_id r, g_object_id r)) dfg))"
    by (simp only: distinct_map simp_thms)
  then show ?thesis by (simp add: comp_def)
qed

text \<open>
  C9. \<open>load_and_process\<close> always returns; the score of every aggregated row is the sum of
  \<open>TIME_DECAY_RATE\<close> to the power \<open>days_diff\<close> over the selected visits of that user to
  that item; the aggregated rows are exactly the distinct (user, item) pairs of the
  selected visits; rearranging the rows of the table does not change the result; the
  matrix has one row per distinct user and one column per distinct item; its stored
  entries are as many as the aggregated rows, at pairwise different positions, none of
  them zero, and every aggregated row has its score stored at the position of its user
  and item. (Sums are sums of real numbers.)
\<close>

theorem load_scores_and_matrix:
  "\<exists>df m ld'.
     load_and_process (Some tbl) sql_now now ld = Inr (df, m, ld') \<and>
     (\<forall>r \<in> set df. score r =
        (\<Sum>v\<leftarrow>filter (\<lambda>v. user_id v = g_user_id r \<and> object_id v = g_object_id r)
                 (select_rows sql_now tbl). TIME_DECAY_RATE powr days_diff now v)) \<and>
     distinct (map (\<lambda>r. (g_user_id r, g_object_id r)) df) \<and>
     (\<lambda>r. (g_user_id r, g_object_id r)) ` set df =
       (\<lambda>v. (user_id v, object_id v)) ` set (select_rows sql_now tbl) \<and>
     (\<forall>tbl'. mset tbl' = mset tbl \<longrightarrow>
        load_and_process (Some tbl') sql_now now ld = load_and_process (Some tbl) sql_now now ld) \<and>
     shape m = (card (g_user_id ` set df), card (g_object_id ` set df)) \<and>
     length (entries m) = length df \<and>
     distinct (map fst (entries m)) \<and>
     (\<forall>e \<in> set (entries m). snd e \<noteq> 0) \<and>
     (\<forall>r \<in> set df. \<exists>i j.
        map_of (user_id_to_idx ld') (g_user_id r) = Some i \<and>
        map_of (item_id_to_idx ld') (g_object_id r) = Some j \<and>
        ((i, j), score r) \<in> set (entries m))"
proof (cases "select_rows sql_now tbl = []")
  case True
  define m :: csr_matrix where "m = \<lparr>shape = (0, 0), entries = []\<rparr>"
  have load: "load_and_process (Some tbl) sql_now now ld = Inr ([], m, ld)"
    using True by (simp add: load_and_process_def m_def)
  have oi: "\<forall>tbl'. mset tbl' = mset tbl \<longrightarrow>
        load_and_process (Some tbl') sql_now now ld = load_and_process (Some tbl) sql_now now ld"
    by (blast intro: load_mset_cong)
  have pairs: "(\<lambda>r. (g_user_id r, g_object_id r)) ` set ([] :: score_entry list) =
       (\<lambda>v. (user_id v, object_id v)) ` set (select_rows sql_now tbl)"
    using True by simp
  have shp: "shape m = (card (g_user_id ` set ([] :: score_entry list)),
       card (g_object_id ` set ([] :: score_entry list)))"
    by (simp add: m_def)
  have rest: "length (entries m) = length ([] :: score_entry list)"
    "distinct (map fst (entries m))" "\<forall>e \<in> set (entries m). snd e \<noteq> 0"
    by (simp_all add: m_def)
  show ?thesis
    apply (rule exI [of _ "[]"], rule exI [of _ m], rule exI [of _ ld])
    apply (intro conjI)
             apply (rule load)
            apply simp
           apply simp
          apply (rule pairs)
         apply (rule oi)
        apply (rule shp)
       apply (rule rest)+
    apply simp
    done
next
  case False
  define dfg where "dfg = aggregate now (select_rows sql_now tbl)"
  define uu where "uu = unique (map g_user_id dfg)"
  define ui where "ui = unique (map g_object_id dfg)"
  define pos :: "score_entry \<Rightarrow> nat \<times> nat"
    where "pos = (\<lambda>r. (index_of uu (g_user_id r), index_of ui (g_object_id r)))"
  define m where "m = \<lparr>shape = (length uu, length ui),
     entries = groupby_sum fst snd (map (\<lambda>r. (pos r, score r)) dfg)\<rparr>"
  define ld' where "ld' = \<lparr>user_id_to_idx = id_to_idx uu, user_idx_to_id = idx_to_id uu,
     item_id_to_idx = id_to_idx ui, item_idx_to_id = idx_to_id ui\<rparr>"
  have load: "load_and_process (Some tbl) sql_now now ld = Inr (dfg, m, ld')"
    using load_nonempty [OF False, of now ld]
    by (simp add: Let_def dfg_def uu_def ui_def m_def ld'_def pos_def)
  have sc: "\<forall>r \<in> set dfg. score r =
        (\<Sum>v\<leftarrow>filter (\<lambda>v. user_id v = g_user_id r \<and> object_id v = g_object_id r)
                 (select_rows sql_now tbl). TIME_DECAY_RATE powr days_diff now v)"
    using aggregate_score [of _ now "select_rows sql_now tbl"]
    by (simp add: dfg_def weight_def [abs_def])
  have dist: "distinct (map (\<lambda>r. (g_user_id r, g_object_id r)) dfg)"
    by (simp add: dfg_def aggregate_distinct_pairs)
  have pairs: "(\<lambda>r. (g_user_id r, g_object_id r)) ` set dfg =
       (\<lambda>v. (user_id v, object_id v)) ` set (select_rows sql_now tbl)"
    by (simp add: dfg_def aggregate_pair_set)
  have shp: "shape m = (card (g_user_id ` set dfg), card (g_object_id ` set dfg))"
  proof -
    have "card (set uu) = length uu" "card (set ui) = length ui"
      by (rule distinct_card, simp add: uu_def, rule distinct_card, simp add: ui_def)
    moreover have "set uu = g_user_id ` set dfg" "set ui = g_object_id ` set dfg"
      by (simp_all add: uu_def ui_def)
    ultimately show ?thesis
      by (simp add: m_def)
  qed
  have dpos: "distinct (map pos dfg)"
    unfolding pos_def by (rule positions_distinct [OF dist]) (simp_all add: uu_def ui_def)
  then have "distinct (map fst (map (\<lambda>r. (pos r, score r)) dfg))"
    by (simp add: comp_def)
  then have ms: "mset (entries m) = mset (map (\<lambda>r. (pos r, score r)) dfg)"
    using groupby_sum_distinct [of fst "map (\<lambda>r. (pos r, score r)) dfg" snd]
    by (simp add: m_def comp_def)
  have "length (entries m) = length (map (\<lambda>r. (pos r, score r)) dfg)"
    using ms by (rule mset_eq_length)
  then have len: "length (entries m) = length dfg"
    by simp
  have "set (entries m) = set (map (\<lambda>r. (pos r, score r)) dfg)"
    using ms by (rule mset_eq_setD)
  then have st: "set (entries m) = (\<lambda>r. (pos r, score r)) ` set dfg"
    by simp
  have dk: "distinct (map fst (entries m))"
    by (simp add: m_def groupby_sum_keys)
  have nz: "\<forall>e \<in> set (entries m). snd e \<noteq> 0"
  proof
    fix e assume "e \<in> set (entries m)"
    then obtain r where r: "r \<in> set dfg" and e: "e = (pos r, score r)"
      by (auto simp: st)
    from r have "0 < score r"
      unfolding dfg_def by (rule aggregate_score_pos)
    with e show "snd e \<noteq> 0" by simp
  qed
  have ent: "\<forall>r \<in> set dfg. \<exists>i j.
        map_of (user_id_to_idx ld') (g_user_id r) = Some i \<and>
        map_of (item_id_to_idx ld') (g_object_id r) = Some j \<and>
        ((i, j), score r) \<in> set (entries m)"
  proof
    fix r assume r: "r \<in> set dfg"
    then have "map_of (id_to_idx uu) (g_user_id r) = Some (index_of uu (g_user_id r))"
      and "map_of (id_to_idx ui) (g_object_id r) = Some (index_of ui (g_object_id r))"
      by (simp_all add: id_to_idx_index_of uu_def ui_def)
    moreover from r have "(pos r, score r) \<in> set (entries m)"
      by (simp add: st)
    ultimately show "\<exists>i j.
        map_of (user_id_to_idx ld') (g_user_id r) = Some i \<and>
        map_of (item_id_to_idx ld') (g_object_id r) = Some j \<and>
        ((i, j), score r) \<in> set (entries m)"
      by (simp add: ld'_def pos_def)
  qed
  have oi: "\<forall>tbl'. mset tbl' = mset tbl \<longrightarrow>
        load_and_process (Some tbl') sql_now now ld = load_and_process (Some tbl) sql_now now ld"
    by (blast intro: load_mset_cong)
  show ?thesis
    apply (rule exI [of _ dfg], rule exI [of _ m], rule exI [of _ ld'])
    apply (intro conjI)
             apply (rule load sc dist pairs oi shp len dk nz ent)+
    done
qed

theorem load_scores_and_matrix_witness:
  "\<lparr>g_user_id = 1, g_object_id = 100, score = 1.95\<rparr> \<in> set demo_df \<and>
   (1.95 :: real) =
     (\<Sum>v\<leftarrow>filter (\<lambda>v. user_id v = 1 \<and> object_id v = 100)
              (select_rows demo_now demo_table). TIME_DECAY_RATE powr days_diff demo_now v) \<and>
   mset (rev demo_table) = mset demo_table \<and>
   load_and_process (Some (rev demo_table)) demo_now demo_now new_loader =
     Inr (demo_df, demo_matrix, demo_loader) \<and>
   shape demo_matrix = (card (g_user_id ` set demo_df), card (g_object_id ` set demo_df)) \<and>
   length (entries demo_matrix) = length demo_df \<and>
   ((0, 0), 1.95) \<in> set (entries demo_matrix) \<and>
   0 \<notin> snd ` set (entries demo_matrix)"
proof -
  from load_scores_and_matrix [of demo_table demo_now demo_now new_loader]
  obtain df m ld' where
    load: "load_and_process (Some demo_table) demo_now demo_now new_loader = Inr (df, m, ld')"
    and sc: "\<forall>r \<in> set df. score r =
        (\<Sum>v\<leftarrow>filter (\<lambda>v. user_id v = g_user_id r \<and> object_id v = g_object_id r)
                 (select_rows demo_now demo_table). TIME_DECAY_RATE powr days_diff demo_now v)"
    and oi: "\<forall>tbl'. mset tbl' = mset demo_table \<longrightarrow>
        load_and_process (Some tbl') demo_now demo_now new_loader =
        load_and_process (Some demo_table) demo_now demo_now new_loader"
    and shp: "shape m = (card (g_user_id ` set df), card (g_object_id ` set df))"
    and len: "length (entries m) = length df"
    and nz: "\<forall>e \<in> set (entries m). snd e \<noteq> 0"
    and ent: "\<forall>r \<in> set df. \<exists>i j.
        map_of (user_id_to_idx ld') (g_user_id r) = Some i \<and>
        map_of (item_id_to_idx ld') (g_object_id r) = Some j \<and>
        ((i, j), score r) \<in> set (entries m)"
    by (elim exE conjE)
  from load have eq: "df = demo_df" "m = demo_matrix" "ld' = demo_loader"
    by (simp_all add: demo_load)
  have mem: "\<lparr>g_user_id = 1, g_object_id = 100, score = 1.95\<rparr> \<in> set demo_df"
    by (simp add: demo_df_def)
  have perm: "mset (rev demo_table) = mset demo_table"
    by simp
  from sc mem have s: "(1.95 :: real) =
     (\<Sum>v\<leftarrow>filter (\<lambda>v. user_id v = 1 \<and> object_id v = 100)
              (select_rows demo_now demo_table). TIME_DECAY_RATE powr days_diff demo_now v)"
    unfolding eq by fastforce
  from oi perm have r: "load_and_process (Some (rev demo_table)) demo_now demo_now new_loader =
     Inr (demo_df, demo_matrix, demo_loader)"
    by (simp only: demo_load)
  from ent mem have e: "((0, 0), 1.95) \<in> set (entries demo_matrix)"
    unfolding eq by (fastforce simp: demo_loader_def)
  from nz have z: "0 \<notin> snd ` set (entries m)"
    by force
  from mem s perm r shp len e z show ?thesis
    unfolding eq by (intro conjI)
qed

subsection \<open>History lists\<close>

lemma insort_key_cong_le:
  "\<forall>y \<in> set zs. f x \<le> f y \<longleftrightarrow> g x \<le> g y \<Longrightarrow> insort_key f x zs = insort_key g x zs"
  by (induction zs) auto

lemma sorted_filter_second:
  "sorted (map (\<lambda>r. (a r, b r)) xs) \<Longrightarrow> sorted (map b (filter (\<lambda>r. a r = u) xs))"
  by (induction xs) (auto simp: less_eq_prod_def)

lemma sort_user_score_eq:
  fixes ys :: "score_entry list"
  assumes "sorted (map g_object_id ys)" and "\<forall>r \<in> set ys. g_user_id r = u"
  shows "sort_key (\<lambda>r. (g_user_id r, - score r)) ys = sort_key (\<lambda>r. (- score r, g_object_id r)) ys"
  using assms
proof (induction ys)
  case Nil
  then show ?case by simp
next
  case (Cons x ys)
  let ?f = "\<lambda>r :: score_entry. (g_user_id r, - score r)"
  let ?g = "\<lambda>r :: score_entry. (- score r, g_object_id r)"
  from Cons.prems have IH: "sort_key ?f ys = sort_key ?g ys"
    by (intro Cons.IH) auto
  have "\<forall>y \<in> set (sort_key ?g ys). ?f x \<le> ?f y \<longleftrightarrow> ?g x \<le> ?g y"
    using Cons.prems by (auto simp: less_eq_prod_def)
  then have "insort_key ?f x (sort_key ?g ys) = insort_key ?g x (sort_key ?g ys)"
    by (rule insort_key_cong_le)
  with IH show ?case by simp
qed

lemma map_of_groupby_list:
  "map_of (groupby_list key col rows) k =
     (if k \<in> key ` set rows then Some (map col (filter (\<lambda>r. key r = k) rows)) else None)"
  by (simp add: groupby_list_def map_of_map_restrict restrict_map_def)

lemma load_frame_sorted:
  assumes "load_and_process (Some tbl) sql_now now ld = Inr (df, m, ld')"
  shows "sorted (map (\<lambda>r. (g_user_id r, g_object_id r)) df)"
proof (cases "select_rows sql_now tbl = []")
  case True
  with assms show ?thesis by (simp add: load_and_process_def)
next
  case False
  from load_nonempty [OF this, of now ld] assms
  have "df = aggregate now (select_rows sql_now tbl)" by (simp add: Let_def)
  then show ?thesis by (simp add: aggregate_sorted_pairs)
qed

lemma history_index_sorted_frame:
  assumes "sorted (map (\<lambda>r. (g_user_id r, g_object_id r)) df)" and "u \<in> g_user_id ` set df"
  shows "map_of (groupby_list g_user_id g_object_id (sort_values_user_score df)) u =
     Some (spec_history df u)"
proof -
  let ?ys = "filter (\<lambda>r. g_user_id r = u) df"
  have "filter (\<lambda>r. g_user_id r = u) (sort_values_user_score df) =
      sort_key (\<lambda>r. (g_user_id r, - score r)) ?ys"
    by (simp add: sort_values_user_score_def filter_sort)
  also have "\<dots> = sort_key (\<lambda>r. (- score r, g_object_id r)) ?ys"
    by (rule sort_user_score_eq [where u = u]) (simp_all add: sorted_filter_second [OF assms(1)])
  finally have "map g_object_id (filter (\<lambda>r. g_user_id r = u) (sort_values_user_score df)) =
      spec_history df u"
    by (simp add: spec_history_def)
  moreover have "u \<in> g_user_id ` set (sort_values_user_score df)"
    using assms(2) by (simp add: sort_values_user_score_def)
  ultimately show ?thesis
    by (simp add: map_of_groupby_list)
qed

lemma train_fields:
  assumes "train fit e0 m = Some e"
  shows "user_history_index e = user_history_index e0" "popular_items e = popular_items e0"
    "user_map e = user_map e0" "item_inv_map e = item_inv_map e0" "history_df e = history_df e0"
    "is_trained e" "user_items_matrix e = Some m" "item_id_map_cache e = item_id_map_cache e0"
    "\<exists>mdl. fit m = Some mdl \<and> model e = Some mdl"
  using assms by (auto simp: train_def split: option.splits)

text \<open>
  C4. For the frame that \<open>load_and_process\<close> returns and every user in it, the history
  index of the engine holds the user's items ordered by score descending and, for equal
  scores, by item id ascending, and \<open>get_history_rec\<close> returns the first
  \<open>REC_HISTORY_COUNT\<close> of them.
\<close>

theorem history_order:
  assumes load: "load_and_process (Some tbl) sql_now now ld = Inr (df, m, ld')"
    and tr: "train fit (new_engine srt (user_id_to_idx ld') (item_idx_to_id ld') df) m = Some e"
    and u: "u \<in> g_user_id ` set df"
  shows "map_of (user_history_index e) u = Some (spec_history df u) \<and>
         get_history_rec e u = take REC_HISTORY_COUNT (spec_history df u)"
proof -
  have "user_history_index e = groupby_list g_user_id g_object_id (sort_values_user_score df)"
    by (simp add: train_fields(1) [OF tr] new_engine_def Let_def)
  with history_index_sorted_frame [OF load_frame_sorted [OF load] u]
  have "map_of (user_history_index e) u = Some (spec_history df u)"
    by simp
  then show ?thesis
    by (simp add: get_history_rec_def dict_get_def)
qed

theorem history_order_witness:
  "load_and_process (Some demo_table) demo_now demo_now new_loader =
     Inr (demo_df, demo_matrix, demo_loader) \<and>
   train (\<lambda>m. Some demo_model)
     (new_engine sort_desc_stable (user_id_to_idx demo_loader) (item_idx_to_id demo_loader) demo_df)
     demo_matrix = Some demo_engine \<and>
   2 \<in> g_user_id ` set demo_df \<and>
   spec_history demo_df 2 = [100, 200] \<and>
   map_of (user_history_index demo_engine) 2 = Some [100, 200] \<and>
   get_history_rec demo_engine 2 = [100, 200]"
proof -
  have u: "2 \<in> g_user_id ` set demo_df"
    by (simp add: demo_df_def)
  have s: "spec_history demo_df 2 = [100, 200]"
    by (simp add: spec_history_def demo_df_def less_eq_prod_def)
  from history_order [OF demo_load demo_train u] demo_load demo_train u s
  show ?thesis
    by (simp add: REC_HISTORY_COUNT_def)
qed

subsection \<open>Discovery\<close>

lemma lookup_all_map: "lookup_all d ks = Some vs \<Longrightarrow> map (map_of d) ks = map Some vs"
  by (induction ks arbitrary: vs) (auto split: option.splits)

lemma load_item_map_inj:
  assumes load: "load_and_process (Some tbl) sql_now now ld = Inr (df, m, ld')"
    and ne: "entries m \<noteq> []"
  shows "distinct (map snd (item_idx_to_id ld'))"
proof (cases "select_rows sql_now tbl = []")
  case True
  with load ne show ?thesis by (auto simp: load_and_process_def)
next
  case False
  from load_nonempty [OF False, of now ld] load
  have "item_idx_to_id ld' = idx_to_id (unique (map g_object_id df))"
    by (auto simp: Let_def)
  then show ?thesis by (simp add: idx_to_id_values)
qed

lemma demo_discovery:
  "get_discovery_rec demo_engine 1 = [200, 100, 100, 100, 100, 100, 100, 100]"
  "get_discovery_rec demo_engine 2 = [200, 100, 100, 100, 100, 100, 100, 100]"
  by (simp_all add: get_discovery_rec_def discovery_try_def demo_engine_maps getrow_def
      demo_matrix_def demo_recommend REC_DISCOVERY_COUNT_def)

text \<open>
  The discovery list of user 1 in the small batch does not depend on the scores of the
  fitted model: with two items in the batch, whatever model of two users and two items
  the training returns, the masked item 100 is selected and the index 0 fills the rest.
\<close>

lemma demo_discovery_any_scores:
  "get_discovery_rec
     (demo_engine\<lparr>model := Some \<lparr>n_users = 2, n_items = 2, user_item_score = us,
                                  item_item_score = ii\<rparr>\<rparr>) 1 =
     [200, 100, 100, 100, 100, 100, 100, 100]"
  by (simp add: get_discovery_rec_def discovery_try_def demo_engine_maps getrow_def
      demo_matrix_def recommend_def select_def select_step_def numeral_2_eq_2
      less_eq_prod_def less_prod_def numeral_eq_Suc REC_DISCOVERY_COUNT_def)

text \<open>
  C2 fails on the small batch. User 1 has a row for item 100 in the aggregated frame,
  stored at column 0 of the user's matrix row, and the batch has two items, fewer than
  \<open>REC_DISCOVERY_COUNT\<close>. \<open>get_discovery_rec\<close> passes the row to \<open>recommend\<close> and maps the
  indices it gets back to item ids without a check of its own; the library masks the
  score of column 0 and still returns it, once as the second best of two columns and
  then as the zeros that fill its result. The discovery list of user 1 is item 200
  followed by item 100 seven times.
\<close>

theorem discovery_returns_interacted_item:
  "load_and_process (Some demo_table) demo_now demo_now new_loader =
     Inr (demo_df, demo_matrix, demo_loader) \<and>
   train (\<lambda>m. Some demo_model)
     (new_engine sort_desc_stable (user_id_to_idx demo_loader) (item_idx_to_id demo_loader) demo_df)
     demo_matrix = Some demo_engine \<and>
   \<lparr>g_user_id = 1, g_object_id = 100, score = 1.95\<rparr> \<in> set demo_df \<and>
   map_of (user_map demo_engine) 1 = Some 0 \<and> ((0, 0), 1.95) \<in> set (entries demo_matrix) \<and>
   map_of (item_inv_map demo_engine) 0 = Some 100 \<and>
   get_discovery_rec demo_engine 1 = [200, 100, 100, 100, 100, 100, 100, 100] \<and>
   100 \<in> set (get_discovery_rec demo_engine 1)"
proof -
  have mem: "\<lparr>g_user_id = 1, g_object_id = 100, score = 1.95\<rparr> \<in> set demo_df"
    by (simp add: demo_df_def)
  have pos: "map_of (user_map demo_engine) 1 = Some 0" "((0, 0), 1.95) \<in> set (entries demo_matrix)"
    "map_of (item_inv_map demo_engine) 0 = Some 100"
    by (simp_all add: demo_engine_maps demo_matrix_def)
  have "100 \<in> set (get_discovery_rec demo_engine 1)"
    by (simp add: demo_discovery)
  with demo_load demo_train mem pos demo_discovery(1) show ?thesis
    by (intro conjI)
qed

theorem discovery_returns_interacted_item_witness:
  "is_trained demo_engine \<and> map_of (user_map demo_engine) 1 = Some 0 \<and>
   hd (tl (get_discovery_rec demo_engine 1)) = 100 \<and>
   100 \<in> set (get_discovery_rec demo_engine 1)"
  using discovery_returns_interacted_item by (simp add: demo_engine_maps)

subsection \<open>Popularity\<close>

lemma sorted_rev_iff_uminus:
  fixes zs :: "real list"
  shows "sorted (rev zs) \<longleftrightarrow> sorted (map uminus zs)"
  by (induction zs) (auto simp: sorted_append)

lemma sorts_descending_stable: "sorts_descending sort_desc_stable xs"
proof -
  have "sorted (map uminus (map snd (sort_key (\<lambda>p. - snd p) xs)))"
    using sorted_sort_key [of "\<lambda>p. - snd p" xs] by (simp add: comp_def)
  then show ?thesis
    by (simp add: sorts_descending_def sort_desc_stable_def sorted_rev_iff_uminus)
qed

lemma popular_items_new_engine:
  "popular_items (new_engine srt um iim df) = map fst (srt (groupby_sum g_object_id score df))"
  by (simp add: new_engine_def Let_def)

lemma popular_permutation:
  assumes "sorts_descending srt (groupby_sum g_object_id score df)"
  shows "distinct (popular_items (new_engine srt um iim df))"
    and "set (popular_items (new_engine srt um iim df)) = g_object_id ` set df"
proof -
  let ?t = "groupby_sum g_object_id score df"
  from assms have "mset (srt ?t) = mset ?t"
    by (simp add: sorts_descending_def)
  then have ms: "mset (map fst (srt ?t)) = mset (map fst ?t)"
    by (metis mset_map)
  have "distinct (map fst ?t)"
    by (simp add: groupby_sum_keys)
  with ms show "distinct (popular_items (new_engine srt um iim df))"
    by (simp only: popular_items_new_engine mset_eq_imp_distinct_iff [OF ms])
  have "set (map fst (srt ?t)) = set (map fst ?t)"
    using ms by (rule mset_eq_setD)
  then show "set (popular_items (new_engine srt um iim df)) = g_object_id ` set df"
    by (simp only: popular_items_new_engine groupby_sum_keys set_sort set_remdups set_map)
qed

lemma demo_totals: "groupby_sum g_object_id score demo_df = [(100, 2.95), (200, 1)]"
  by (simp add: groupby_sum_def demo_df_def)

subsection \<open>Returned ids\<close>

lemma lookup_distinct:
  assumes "map (map_of d) ks = map Some vs" and "distinct ks" and "distinct (map snd d)"
  shows "distinct vs"
  using assms(1,2)
proof (induction ks arbitrary: vs)
  case Nil
  then show ?case by simp
next
  case (Cons k ks)
  then obtain v vs' where vs: "vs = v # vs'" and k: "map_of d k = Some v"
    and rest: "map (map_of d) ks = map Some vs'"
    by (cases vs) auto
  from Cons.IH [OF rest] Cons.prems(2) have "distinct vs'" by simp
  moreover have "v \<notin> set vs'"
  proof
    assume "v \<in> set vs'"
    then have "Some v \<in> set (map (map_of d) ks)"
      by (simp only: rest) simp
    then obtain k' where k': "k' \<in> set ks" "map_of d k' = Some v" by auto
    with k have "k' = k"
      by (auto intro!: inj_dict_key [OF assms(3)] dest: map_of_SomeD)
    with k' Cons.prems(2) show False by simp
  qed
  ultimately show ?case by (simp add: vs)
qed

lemma lookup_values:
  assumes "map (map_of d) ks = map Some vs"
  shows "set vs \<subseteq> snd ` set d"
proof
  fix v assume "v \<in> set vs"
  then have "Some v \<in> set (map (map_of d) ks)"
    by (simp only: assms) simp
  then obtain k where "map_of d k = Some v" by auto
  then have "(k, v) \<in> set d" by (rule map_of_SomeD)
  then show "v \<in> snd ` set d" by force
qed

lemma related_loop_map:
  "related_loop iim item_idx ids acc = Some out \<Longrightarrow>
     \<exists>vs. out = acc @ vs \<and> map (map_of iim) (filter (\<lambda>k. k \<noteq> item_idx) ids) = map Some vs"
proof (induction ids arbitrary: acc)
  case Nil
  then show ?case by simp
next
  case (Cons idx ids)
  show ?case
  proof (cases "idx = item_idx")
    case True
    with Cons.prems have "related_loop iim item_idx ids acc = Some out" by simp
    from Cons.IH [OF this] True show ?thesis by simp
  next
    case False
    with Cons.prems obtain v where v: "map_of iim idx = Some v"
      and r: "related_loop iim item_idx ids (acc @ [v]) = Some out"
      by (auto split: option.splits)
    from Cons.IH [OF r] obtain vs where "out = (acc @ [v]) @ vs"
      and "map (map_of iim) (filter (\<lambda>k. k \<noteq> item_idx) ids) = map Some vs"
      by blast
    with v False show ?thesis by simp
  qed
qed

lemma similar_items_distinct:
  "similar_items mdl i N = Some ids \<Longrightarrow> N \<le> n_items mdl \<Longrightarrow> distinct ids"
  by (auto simp: similar_items_def select_distinct split: if_splits)

lemma recommend_distinct:
  "recommend mdl i row N = Some ids \<Longrightarrow> N \<le> n_items mdl \<Longrightarrow> distinct ids"
  by (auto simp: recommend_def select_distinct split: if_splits)

lemma related_try_ids:
  assumes t: "related_try e idx = Some rec_ids"
  shows "set rec_ids \<subseteq> snd ` set (item_inv_map e)"
    and "distinct (map snd (item_inv_map e)) \<Longrightarrow> model e = Some mdl \<Longrightarrow>
           REC_RELATED_COUNT + 1 \<le> n_items mdl \<Longrightarrow> distinct rec_ids"
proof -
  from t obtain mdl' ids out where mdl': "model e = Some mdl'"
    and sim: "similar_items mdl' idx (REC_RELATED_COUNT + 1) = Some ids"
    and loop: "related_loop (item_inv_map e) idx ids [] = Some out"
    and rec_ids: "rec_ids = take REC_RELATED_COUNT out"
    by (auto simp: related_try_def split: option.splits)
  from related_loop_map [OF loop]
  have m: "map (map_of (item_inv_map e)) (filter (\<lambda>k. k \<noteq> idx) ids) = map Some out"
    by simp
  from m have "set out \<subseteq> snd ` set (item_inv_map e)" by (rule lookup_values)
  then show "set rec_ids \<subseteq> snd ` set (item_inv_map e)"
    unfolding rec_ids using set_take_subset [of REC_RELATED_COUNT out] by blast
  show "distinct rec_ids"
    if inj: "distinct (map snd (item_inv_map e))" and mdl: "model e = Some mdl"
      and n: "REC_RELATED_COUNT + 1 \<le> n_items mdl"
  proof -
    from mdl mdl' have "mdl' = mdl" by simp
    with sim n have "distinct ids" by (auto intro: similar_items_distinct)
    then have df: "distinct (filter (\<lambda>k. k \<noteq> idx) ids)" by simp
    from m df inj have "distinct out" by (rule lookup_distinct)
    then show ?thesis unfolding rec_ids by (rule distinct_take)
  qed
qed

lemma related_ids:
  shows "set (fst (get_related_items e i)) \<subseteq> snd ` set (item_inv_map e)"
    and "distinct (map snd (item_inv_map e)) \<Longrightarrow> model e = Some mdl \<Longrightarrow>
           REC_RELATED_COUNT + 1 \<le> n_items mdl \<Longrightarrow> distinct (fst (get_related_items e i))"
proof -
  define c where "c = (case item_id_map_cache e of None \<Rightarrow> invert_dict (item_inv_map e) | Some c \<Rightarrow> c)"
  define e' where "e' = e\<lparr>item_id_map_cache := Some c\<rparr>"
  have f: "item_inv_map e' = item_inv_map e" "model e' = model e"
    by (simp_all add: e'_def)
  have r: "fst (get_related_items e i) =
      (if \<not> is_trained e then []
       else (case map_of c i of
               None \<Rightarrow> []
             | Some idx \<Rightarrow> (case related_try e' idx of None \<Rightarrow> [] | Some rec_ids \<Rightarrow> rec_ids)))"
    by (simp add: get_related_items_def Let_def c_def [symmetric] e'_def [symmetric]
        split: option.splits)
  then consider "fst (get_related_items e i) = []"
    | idx where "related_try e' idx = Some (fst (get_related_items e i))"
    by (auto split: option.splits if_splits)
  note cases = this
  show "set (fst (get_related_items e i)) \<subseteq> snd ` set (item_inv_map e)"
  proof (cases rule: cases)
    case 1
    then show ?thesis by simp
  next
    case 2
    from related_try_ids(1) [OF this] show ?thesis by (simp add: f)
  qed
  show "distinct (fst (get_related_items e i))"
    if "distinct (map snd (item_inv_map e))" "model e = Some mdl"
      "REC_RELATED_COUNT + 1 \<le> n_items mdl"
  proof (cases rule: cases)
    case 1
    then show ?thesis by simp
  next
    case 2
    from that have "distinct (map snd (item_inv_map e'))" "model e' = Some mdl"
      by (simp_all add: f)
    from related_try_ids(2) [OF 2 this that(3)] show ?thesis .
  qed
qed

lemma discovery_ids:
  shows "set (get_discovery_rec e u) \<subseteq> snd ` set (item_inv_map e)"
    and "distinct (map snd (item_inv_map e)) \<Longrightarrow> model e = Some mdl \<Longrightarrow>
           REC_DISCOVERY_COUNT \<le> n_items mdl \<Longrightarrow> distinct (get_discovery_rec e u)"
proof -
  have *: "set rec_ids \<subseteq> snd ` set (item_inv_map e) \<and>
      (distinct (map snd (item_inv_map e)) \<longrightarrow> model e = Some mdl \<longrightarrow>
         REC_DISCOVERY_COUNT \<le> n_items mdl \<longrightarrow> distinct rec_ids)"
    if t: "discovery_try e u = Some rec_ids" for rec_ids
  proof -
    from t obtain mdl' i row ids where mdl': "model e = Some mdl'"
      and ids: "recommend mdl' i row REC_DISCOVERY_COUNT = Some ids"
      and look: "lookup_all (item_inv_map e) ids = Some rec_ids"
      by (auto simp: discovery_try_def split: option.splits)
    from lookup_all_map [OF look] have "set rec_ids \<subseteq> snd ` set (item_inv_map e)"
      by (rule lookup_values)
    moreover have "distinct rec_ids"
      if inj: "distinct (map snd (item_inv_map e))" and mdl: "model e = Some mdl"
        and n: "REC_DISCOVERY_COUNT \<le> n_items mdl"
    proof -
      from mdl mdl' have "mdl' = mdl" by simp
      with ids n have "distinct ids" by (auto intro: recommend_distinct)
      with lookup_all_map [OF look] show ?thesis using inj by (rule lookup_distinct)
    qed
    ultimately show ?thesis by blast
  qed
  show "set (get_discovery_rec e u) \<subseteq> snd ` set (item_inv_map e)"
    using * by (cases "discovery_try e u") (simp_all add: get_discovery_rec_def)
  show "distinct (get_discovery_rec e u)"
    if "distinct (map snd (item_inv_map e))" "model e = Some mdl"
      "REC_DISCOVERY_COUNT \<le> n_items mdl"
    using * that by (cases "discovery_try e u") (simp_all add: get_discovery_rec_def)
qed

lemma distinct_filter_second:
  "distinct (map (\<lambda>r. (a r, b r)) xs) \<Longrightarrow> distinct (map b (filter (\<lambda>r. a r = u) xs))"
  by (induction xs) (auto simp: image_iff)

lemma history_items:
  "dict_get (groupby_list g_user_id g_object_id (sort_values_user_score df)) u =
     (if u \<in> g_user_id ` set df
      then map g_object_id
             (sort_key (\<lambda>r. (g_user_id r, - score r)) (filter (\<lambda>r. g_user_id r = u) df))
      else [])"
proof -
  have "filter (\<lambda>r. g_user_id r = u) (sort_values_user_score df) =
      sort_key (\<lambda>r. (g_user_id r, - score r)) (filter (\<lambda>r. g_user_id r = u) df)"
    by (simp add: sort_values_user_score_def filter_sort)
  moreover have "g_user_id ` set (sort_values_user_score df) = g_user_id ` set df"
    by (simp add: sort_values_user_score_def)
  ultimately show ?thesis
    by (simp only: dict_get_def map_of_groupby_list split: if_splits) simp
qed

lemma history_ids:
  assumes dp: "distinct (map (\<lambda>r. (g_user_id r, g_object_id r)) df)"
    and idx: "user_history_index e = groupby_list g_user_id g_object_id (sort_values_user_score df)"
  shows "distinct (get_history_rec e u) \<and> set (get_history_rec e u) \<subseteq> g_object_id ` set df"
proof (cases "u \<in> g_user_id ` set df")
  case False
  then show ?thesis
    by (simp add: get_history_rec_def idx history_items)
next
  case True
  let ?ys = "filter (\<lambda>r. g_user_id r = u) df"
  let ?items = "map g_object_id (sort_key (\<lambda>r. (g_user_id r, - score r)) ?ys)"
  have h: "get_history_rec e u = take REC_HISTORY_COUNT ?items"
    using True by (simp add: get_history_rec_def idx history_items)
  have "mset ?items = mset (map g_object_id ?ys)"
    by simp
  then have "distinct ?items \<longleftrightarrow> distinct (map g_object_id ?ys)"
    by (rule mset_eq_imp_distinct_iff)
  moreover have "distinct (map g_object_id ?ys)"
    using dp by (rule distinct_filter_second)
  ultimately have "distinct ?items"
    by simp
  then have d: "distinct (take REC_HISTORY_COUNT ?items)"
    by (rule distinct_take)
  have "set (take REC_HISTORY_COUNT ?items) \<subseteq> set ?items"
    by (rule set_take_subset)
  moreover have "set ?items \<subseteq> g_object_id ` set df"
    by auto
  ultimately have "set (take REC_HISTORY_COUNT ?items) \<subseteq> g_object_id ` set df"
    by (rule order_trans)
  with d show ?thesis
    unfolding h by (rule conjI)
qed

lemma slice_to_ids: "distinct xs \<Longrightarrow> distinct (slice_to xs n) \<and> set (slice_to xs n) \<subseteq> set xs"
  by (auto simp: slice_to_def distinct_take dest: in_set_takeD)

lemma load_full:
  assumes load: "load_and_process (Some tbl) sql_now now ld = Inr (df, m, ld')"
    and ne: "fst (shape m) \<noteq> 0"
  shows "df = aggregate now (select_rows sql_now tbl)"
    and "item_idx_to_id ld' = idx_to_id (unique (map g_object_id df))"
    and "user_id_to_idx ld' = id_to_idx (unique (map g_user_id df))"
proof -
  have sel: "select_rows sql_now tbl \<noteq> []"
  proof
    assume "select_rows sql_now tbl = []"
    with load ne show False by (auto simp: load_and_process_def)
  qed
  from load_nonempty [OF sel, of now ld] load
  show "df = aggregate now (select_rows sql_now tbl)"
    and "item_idx_to_id ld' = idx_to_id (unique (map g_object_id df))"
    and "user_id_to_idx ld' = id_to_idx (unique (map g_user_id df))"
    by (auto simp: Let_def)
qed



lemma wide_select: "select_rows demo_now wide_table = wide_table"
  by (simp add: select_rows_def wide_table_def demo_now_def TIME_DECAY_WINDOW_def)

lemma wide_aggregate: "aggregate demo_now wide_table = wide_df"
  by (simp add: aggregate_def groupby_sum_def wide_table_def weight_def days_diff_def
      demo_now_def TIME_DECAY_RATE_def wide_df_def less_eq_prod_def power_divide)

lemma wide_load:
  "load_and_process (Some wide_table) demo_now demo_now new_loader =
     Inr (wide_df, wide_matrix, wide_loader)"
proof -
  have "select_rows demo_now wide_table \<noteq> []"
    unfolding wide_select by (simp add: wide_table_def)
  then show ?thesis
    by (simp add: load_and_process_def Let_def wide_select wide_aggregate)
      (simp add: wide_df_def id_to_idx_def idx_to_id_def series_map_def csr_from_coo_def
        groupby_sum_def wide_matrix_def wide_loader_def less_eq_prod_def numeral_eq_Suc)
qed

lemma wide_train:
  "train (\<lambda>m. Some wide_model)
     (new_engine sort_desc_stable (user_id_to_idx wide_loader) (item_idx_to_id wide_loader) wide_df)
     wide_matrix = Some wide_engine"
  by (simp add: train_def wide_engine_def)

lemma wide_engine_maps:
  "item_inv_map wide_engine =
     [(0, 11), (1, 12), (2, 13), (3, 14), (4, 15), (5, 16), (6, 17), (7, 18)]"
  "user_map wide_engine = [(7, 0), (8, 1)]"
  "item_id_map_cache wide_engine = None"
  "is_trained wide_engine"
  "model wide_engine = Some wide_model"
  "user_items_matrix wide_engine = Some wide_matrix"
  by (simp_all add: wide_engine_def new_engine_def wide_loader_def Let_def)

lemma wide_recommend:
  "recommend wide_model 0 [(0, x), (Suc 0, y), (2, z)] 8 = Some [7, 6, 5, 4, 3, 2, 1, 0]"
  by (simp add: recommend_def select_def select_step_def wide_model_def
      less_eq_prod_def less_prod_def numeral_eq_Suc)

lemma wide_similar:
  "similar_items wide_model 0 6 = Some [0, 5, 4, 3, 2, 1]"
  by (simp add: similar_items_def select_def select_step_def wide_model_def
      less_eq_prod_def less_prod_def numeral_eq_Suc)

lemma wide_discovery: "get_discovery_rec wide_engine 7 = [18, 17, 16, 15, 14, 13, 12, 11]"
  by (simp add: get_discovery_rec_def discovery_try_def wide_engine_maps getrow_def
      wide_matrix_def wide_recommend REC_DISCOVERY_COUNT_def)

lemma wide_related: "fst (get_related_items wide_engine 11) = [16, 15, 14, 13, 12]"
  by (simp add: get_related_items_def wide_engine_maps Let_def invert_dict_def dict_set_def
      related_try_def wide_similar REC_RELATED_COUNT_def)

lemma wide_popular: "get_popular_items wide_engine 3 = [11, 12, 13]"
  by (simp add: get_popular_items_def slice_to_def wide_engine_def popular_items_new_engine
      groupby_sum_def wide_df_def sort_desc_stable_def)

lemma wide_history: "get_history_rec wide_engine 7 = [11, 12, 13]"
  by (simp add: get_history_rec_def wide_engine_def new_engine_def Let_def groupby_list_def
      wide_df_def sort_values_user_score_def less_eq_prod_def dict_get_def
      REC_HISTORY_COUNT_def)


subsection \<open>Cache keys\<close>

lemma nat_of_digits_snoc:
  "nat_of_digits (s @ [c]) = 10 * nat_of_digits s + (of_char c - 48)"
  by (simp add: nat_of_digits_def)

lemma of_char_digit_char: "d < 10 \<Longrightarrow> of_char (digit_char d) = 48 + d"
  by (simp add: digit_char_def)

lemma nat_of_digits_str_nat: "nat_of_digits (str_nat n) = n"
proof (induction n rule: str_nat.induct)
  case (1 n)
  show ?case
  proof (cases "n < 10")
    case True
    then have "str_nat n = [digit_char n]"
      by (simp add: str_nat.simps)
    with True show ?thesis
      by (simp add: nat_of_digits_def of_char_digit_char)
  next
    case False
    then have s: "str_nat n = str_nat (n div 10) @ [digit_char (n mod 10)]"
      by (subst str_nat.simps) simp
    have "nat_of_digits (str_nat (n div 10)) = n div 10"
      using False by (rule "1.IH")
    then show ?thesis
      by (simp add: s nat_of_digits_snoc of_char_digit_char)
  qed
qed

lemma str_nat_inj: "str_nat m = str_nat n \<Longrightarrow> m = n"
  by (metis nat_of_digits_str_nat)

lemma digit_char_not_minus: "d < 10 \<Longrightarrow> digit_char d \<noteq> CHR ''-''"
proof
  assume "d < 10" and "digit_char d = CHR ''-''"
  then have "(of_char (digit_char d) :: nat) = of_char (CHR ''-'')"
    by simp
  with \<open>d < 10\<close> show False
    by (simp add: of_char_digit_char)
qed

lemma str_nat_no_minus: "CHR ''-'' \<notin> set (str_nat n)"
proof (induction n rule: str_nat.induct)
  case (1 n)
  show ?case
  proof (cases "n < 10")
    case True
    then have "str_nat n = [digit_char n]"
      by (simp add: str_nat.simps)
    with True digit_char_not_minus [of n] show ?thesis
      by auto
  next
    case False
    then have s: "str_nat n = str_nat (n div 10) @ [digit_char (n mod 10)]"
      by (subst str_nat.simps) simp
    have "CHR ''-'' \<notin> set (str_nat (n div 10))"
      using False by (rule "1.IH")
    moreover have "digit_char (n mod 10) \<noteq> CHR ''-''"
      by (rule digit_char_not_minus) simp
    ultimately show ?thesis
      by (auto simp: s)
  qed
qed

lemma str_int_inj: "str_int i = str_int j \<Longrightarrow> i = j"
proof -
  assume eq: "str_int i = str_int j"
  have neg: "False" if "a < 0" "\<not> b < 0" "str_int a = str_int b" for a b
  proof -
    from that have "CHR ''-'' # str_nat (nat (- a)) = str_nat (nat b)"
      by (simp add: str_int_def)
    then have "CHR ''-'' \<in> set (str_nat (nat b))"
      by (metis list.set_intros(1))
    with str_nat_no_minus show False by blast
  qed
  show ?thesis
  proof (cases "i < 0")
    case True
    show ?thesis
    proof (cases "j < 0")
      case True
      with \<open>i < 0\<close> eq have "nat (- i) = nat (- j)"
        by (auto simp: str_int_def dest: str_nat_inj)
      with True \<open>i < 0\<close> show ?thesis by simp
    next
      case False
      with neg [OF True False eq] show ?thesis by simp
    qed
  next
    case False
    show ?thesis
    proof (cases "j < 0")
      case True
      with neg [OF True False eq [symmetric]] show ?thesis by simp
    next
      case ge: False
      with False eq have "nat i = nat j"
        by (auto simp: str_int_def dest: str_nat_inj)
      with False ge show ?thesis by simp
    qed
  qed
qed

lemma key_hist_inj: "key_hist u = key_hist u' \<longleftrightarrow> u = u'"
  by (auto simp: key_hist_def dest: str_int_inj)

lemma key_disc_inj: "key_disc u = key_disc u' \<longleftrightarrow> u = u'"
  by (auto simp: key_disc_def dest: str_int_inj)

lemma key_related_inj: "key_related i = key_related i' \<longleftrightarrow> i = i'"
  by (auto simp: key_related_def dest: str_int_inj)

lemma key_hist_not_disc: "key_hist u \<noteq> key_disc u'"
proof
  assume "key_hist u = key_disc u'"
  then have "str_int u @ '':history'' = str_int u' @ '':discovery''"
    by (simp add: key_hist_def key_disc_def)
  then have "rev (str_int u @ '':history'') = rev (str_int u' @ '':discovery'')"
    by (rule arg_cong)
  then show False by simp
qed

lemma key_user_not_item: "key_hist u \<noteq> key_related i" "key_disc u \<noteq> key_related i"
  by (simp_all add: key_hist_def key_disc_def key_related_def)

lemma key_not_popular:
  "key_hist u \<noteq> key_popular" "key_disc u \<noteq> key_popular" "key_related i \<noteq> key_popular"
  by (simp_all add: key_hist_def key_disc_def key_related_def key_popular_def)

subsection \<open>Publishing\<close>

lemma run_commands_append: "run_commands (a @ b) s = run_commands b (run_commands a s)"
  by (simp add: run_commands_def)

lemma run_commands_Nil: "run_commands [] s = s"
  by (simp add: run_commands_def)

lemma run_commands_key_commands: "run_commands (key_commands k xs) s = s(k := cache_value xs)"
  by (auto simp: key_commands_def run_commands_def cache_value_def REDIS_EXPIRE_SECONDS_def)

lemma plan_commands_Cons:
  "plan_commands ((k, xs) # plan) = key_commands k xs @ plan_commands plan"
  by (simp add: plan_commands_def)

lemma plan_commands_append: "plan_commands (a @ b) = plan_commands a @ plan_commands b"
  by (simp add: plan_commands_def)

lemma run_commands_plan:
  "distinct (map fst plan) \<Longrightarrow>
     run_commands (plan_commands plan) s k =
       (case map_of plan k of None \<Rightarrow> s k | Some xs \<Rightarrow> cache_value xs)"
proof (induction plan arbitrary: s)
  case Nil
  then show ?case by (simp add: plan_commands_def run_commands_Nil)
next
  case (Cons p plan)
  obtain k' xs' where p: "p = (k', xs')" by (cases p)
  from Cons.prems have d: "distinct (map fst plan)" and nk: "k' \<notin> fst ` set plan"
    by (simp_all add: p)
  have "run_commands (plan_commands (p # plan)) s k =
      run_commands (plan_commands plan) (s(k' := cache_value xs')) k"
    by (simp add: p plan_commands_Cons run_commands_append run_commands_key_commands)
  also have "\<dots> = (case map_of plan k of None \<Rightarrow> (s(k' := cache_value xs')) k
      | Some xs \<Rightarrow> cache_value xs)"
    by (rule Cons.IH [OF d])
  also have "\<dots> = (case map_of (p # plan) k of None \<Rightarrow> s k | Some xs \<Rightarrow> cache_value xs)"
  proof (cases "k = k'")
    case True
    with nk have "map_of plan k = None"
      by (simp add: map_of_eq_None_iff)
    with True show ?thesis by (simp add: p)
  next
    case False
    then show ?thesis by (simp add: p split: option.splits)
  qed
  finally show ?case .
qed

lemma user_commands_plan:
  "\<forall>(uid, recs) \<in> set user_recs. map_of recs ''history'' \<noteq> None \<and> map_of recs ''discovery'' \<noteq> None
   \<Longrightarrow> user_commands user_recs = Some (plan_commands (user_plan user_recs))"
proof (induction user_recs)
  case Nil
  then show ?case by (simp add: user_plan_def plan_commands_def)
next
  case (Cons p user_recs)
  obtain uid recs where p: "p = (uid, recs)" by (cases p)
  from Cons.prems obtain h d where h: "map_of recs ''history'' = Some h"
    and d: "map_of recs ''discovery'' = Some d"
    by (auto simp: p)
  from Cons.prems have "user_commands user_recs = Some (plan_commands (user_plan user_recs))"
    by (intro Cons.IH) simp
  moreover have "user_plan (p # user_recs) = (key_hist uid, h) # (key_disc uid, d) # user_plan user_recs"
    by (simp add: user_plan_def p dict_get_def h d)
  ultimately show ?case
    by (simp add: p h d plan_commands_Cons)
qed

lemma key_commands_keys: "c \<in> set (key_commands k xs) \<Longrightarrow> cmd_key c = k"
  by (auto simp: key_commands_def split: if_splits)

lemma user_commands_keys:
  "user_commands user_recs = Some cmds \<Longrightarrow> c \<in> set cmds \<Longrightarrow>
     \<exists>u. cmd_key c = key_hist u \<or> cmd_key c = key_disc u"
proof (induction user_recs arbitrary: cmds)
  case Nil
  then show ?case by simp
next
  case (Cons p user_recs)
  obtain uid recs where p: "p = (uid, recs)" by (cases p)
  from Cons.prems(1) obtain h d rest where rest: "user_commands user_recs = Some rest"
    and cmds: "cmds = key_commands (key_hist uid) h @ key_commands (key_disc uid) d @ rest"
    by (auto simp: p split: option.splits)
  from Cons.prems(2) consider "c \<in> set (key_commands (key_hist uid) h)"
    | "c \<in> set (key_commands (key_disc uid) d)" | "c \<in> set rest"
    by (auto simp: cmds)
  then show ?case
  proof cases
    case 1
    then show ?thesis by (blast dest: key_commands_keys)
  next
    case 2
    then show ?thesis by (blast dest: key_commands_keys)
  next
    case 3
    with Cons.IH [OF rest] show ?thesis by blast
  qed
qed

lemma item_commands_plan: "item_commands item_recs = plan_commands (item_plan item_recs)"
  by (induction item_recs) (auto simp: item_plan_def plan_commands_def)

lemma item_commands_keys:
  "c \<in> set (item_commands item_recs) \<Longrightarrow> \<exists>i. cmd_key c = key_related i"
proof (induction item_recs)
  case Nil
  then show ?case by simp
next
  case (Cons p item_recs)
  obtain iid xs where p: "p = (iid, xs)" by (cases p)
  from Cons.prems consider "c \<in> set (key_commands (key_related iid) xs)"
    | "c \<in> set (item_commands item_recs)"
    by (auto simp: p)
  then show ?case
  proof cases
    case 1
    then show ?thesis by (blast dest: key_commands_keys)
  next
    case 2
    with Cons.IH show ?thesis by blast
  qed
qed

lemma exec_command_other: "k \<noteq> cmd_key c \<Longrightarrow> exec_command s c k = s k"
  by (cases c) (auto split: option.splits)

lemma run_commands_other: "k \<notin> cmd_key ` set cmds \<Longrightarrow> run_commands cmds s k = s k"
proof (induction cmds arbitrary: s)
  case Nil
  then show ?case by (simp add: run_commands_Nil)
next
  case (Cons c cmds)
  then have "run_commands cmds (exec_command s c) k = exec_command s c k"
    by simp
  moreover from Cons.prems have "exec_command s c k = s k"
    by (intro exec_command_other) simp
  ultimately show ?case
    by (simp add: run_commands_def)
qed

lemma execute_other:
  "k \<notin> cmd_key ` set cmds \<Longrightarrow> (case execute cmds s of None \<Rightarrow> s | Some s' \<Rightarrow> s') k = s k"
  by (simp add: execute_def run_commands_other)

lemma save_keeps_popular: "save_results_to_redis user_recs item_recs r key_popular = r key_popular"
proof (cases "user_commands user_recs")
  case None
  then show ?thesis by (simp add: save_results_to_redis_def)
next
  case (Some cmds)
  have "key_popular \<notin> cmd_key ` set (cmds @ item_commands item_recs)"
  proof
    assume "key_popular \<in> cmd_key ` set (cmds @ item_commands item_recs)"
    then obtain c where c: "cmd_key c = key_popular"
      and mem: "c \<in> set cmds \<or> c \<in> set (item_commands item_recs)"
      by (auto simp: image_iff) metis+
    from mem show False
    proof
      assume "c \<in> set cmds"
      from user_commands_keys [OF Some this] c key_not_popular show False by metis
    next
      assume "c \<in> set (item_commands item_recs)"
      from item_commands_keys [OF this] c key_not_popular show False by metis
    qed
  qed
  from execute_other [OF this, of r] show ?thesis
    by (simp add: save_results_to_redis_def Some)
qed

lemma user_plan_Cons:
  "user_plan ((uid, recs) # rest) =
     (key_hist uid, dict_get recs ''history'') # (key_disc uid, dict_get recs ''discovery'') #
     user_plan rest"
  by (simp add: user_plan_def)

lemma user_plan_keys:
  "k \<in> fst ` set (user_plan user_recs) \<longleftrightarrow>
     (\<exists>uid \<in> fst ` set user_recs. k = key_hist uid \<or> k = key_disc uid)"
proof (induction user_recs)
  case Nil
  then show ?case by (simp add: user_plan_def)
next
  case (Cons p user_recs)
  obtain uid recs where p: "p = (uid, recs)" by (cases p)
  from Cons.IH show ?case
    by (auto simp: p user_plan_Cons)
qed

lemma user_plan_distinct: "distinct (map fst user_recs) \<Longrightarrow> distinct (map fst (user_plan user_recs))"
proof (induction user_recs)
  case Nil
  then show ?case by (simp add: user_plan_def)
next
  case (Cons p user_recs)
  obtain uid recs where p: "p = (uid, recs)" by (cases p)
  from Cons.prems have new: "uid \<notin> fst ` set user_recs"
    by (simp add: p)
  have "key_hist uid \<notin> fst ` set (user_plan user_recs)"
    unfolding user_plan_keys using new by (auto simp: key_hist_inj key_hist_not_disc)
  moreover have "key_disc uid \<notin> fst ` set (user_plan user_recs)"
    unfolding user_plan_keys using new key_hist_not_disc
    by (auto simp: key_disc_inj) metis
  ultimately show ?case
    using Cons by (simp add: p user_plan_Cons key_hist_not_disc)
qed

lemma item_plan_keys:
  "k \<in> fst ` set (item_plan item_recs) \<longleftrightarrow> (\<exists>iid \<in> fst ` set item_recs. k = key_related iid)"
  by (induction item_recs) (auto simp: item_plan_def)

lemma item_plan_distinct: "distinct (map fst item_recs) \<Longrightarrow> distinct (map fst (item_plan item_recs))"
proof -
  assume "distinct (map fst item_recs)"
  moreover have "map fst (item_plan item_recs) = map key_related (map fst item_recs)"
    by (simp add: item_plan_def comp_def case_prod_beta)
  ultimately show ?thesis
    by (simp only: distinct_map) (auto simp: inj_on_def key_related_inj)
qed

lemma full_plan_distinct:
  assumes "distinct (map fst user_recs)" and "distinct (map fst item_recs)"
  shows "distinct (map fst (user_plan user_recs @ item_plan item_recs))"
proof -
  have "fst ` set (user_plan user_recs) \<inter> fst ` set (item_plan item_recs) = {}"
  proof (rule ccontr)
    assume "fst ` set (user_plan user_recs) \<inter> fst ` set (item_plan item_recs) \<noteq> {}"
    then obtain k where "k \<in> fst ` set (user_plan user_recs)" "k \<in> fst ` set (item_plan item_recs)"
      by blast
    then obtain u i where "k = key_hist u \<or> k = key_disc u" "k = key_related i"
      unfolding user_plan_keys item_plan_keys by blast
    with key_user_not_item show False by metis
  qed
  with user_plan_distinct [OF assms(1)] item_plan_distinct [OF assms(2)] show ?thesis
    by simp
qed

lemma user_plan_mem:
  "(uid, recs) \<in> set user_recs \<Longrightarrow>
     (key_hist uid, dict_get recs ''history'') \<in> set (user_plan user_recs) \<and>
     (key_disc uid, dict_get recs ''discovery'') \<in> set (user_plan user_recs)"
  by (induction user_recs) (auto simp: user_plan_Cons)

lemma item_plan_mem:
  "(iid, xs) \<in> set item_recs \<Longrightarrow> (key_related iid, xs) \<in> set (item_plan item_recs)"
  by (auto simp: item_plan_def)

lemma packable_key_commands: "list_all packable (key_commands k xs) \<longleftrightarrow> list_all encodable xs"
  by (simp add: key_commands_def)

lemma packable_plan_commands: "list_all packable (plan_commands plan) \<longleftrightarrow> plain_lists plan"
  by (induction plan) (auto simp: plan_commands_def plain_lists_def packable_key_commands)

lemma save_is_plan:
  assumes "\<forall>(uid, recs) \<in> set user_recs.
             map_of recs ''history'' \<noteq> None \<and> map_of recs ''discovery'' \<noteq> None"
  shows "save_results_to_redis user_recs item_recs r =
     (if plain_lists (user_plan user_recs @ item_plan item_recs)
      then run_commands (plan_commands (user_plan user_recs @ item_plan item_recs)) r
      else r)"
  by (simp add: save_results_to_redis_def user_commands_plan [OF assms] item_commands_plan
      plan_commands_append [symmetric] execute_def packable_plan_commands
      del: list_all_append)

text \<open>
  The protocol of the publisher, where every id in every list is a Python int. When every
  user's results hold a history and a discovery list, the publisher executes, for each
  key in turn, a delete followed, if and only if the new list is not empty, by a push of
  the list in order and an expire of \<open>REDIS_EXPIRE_SECONDS\<close>. After it, whatever the cache
  held before, the history, discovery and related key of every user and item processed
  holds exactly its new list with that time-to-live, or is absent when the new list is
  empty; every other key is as it was.
\<close>

lemma publish_plain_ints:
  assumes du: "distinct (map fst user_recs)" and di: "distinct (map fst item_recs)"
    and ok: "\<forall>(uid, recs) \<in> set user_recs.
               map_of recs ''history'' \<noteq> None \<and> map_of recs ''discovery'' \<noteq> None"
    and plain: "plain_lists (user_plan user_recs @ item_plan item_recs)"
  shows "save_results_to_redis user_recs item_recs r =
           run_commands (plan_commands (user_plan user_recs @ item_plan item_recs)) r"
    and "key_commands k xs =
           (if xs = [] then [DELETE k] else [DELETE k, RPUSH k xs, EXPIRE k REDIS_EXPIRE_SECONDS])"
    and "(uid, recs) \<in> set user_recs \<Longrightarrow> map_of recs ''history'' = Some h \<Longrightarrow>
           save_results_to_redis user_recs item_recs r (key_hist uid) =
             (if h = [] then None else Some (map int_of h, Some REDIS_EXPIRE_SECONDS))"
    and "(uid, recs) \<in> set user_recs \<Longrightarrow> map_of recs ''discovery'' = Some d \<Longrightarrow>
           save_results_to_redis user_recs item_recs r (key_disc uid) =
             (if d = [] then None else Some (map int_of d, Some REDIS_EXPIRE_SECONDS))"
    and "(iid, related_ids) \<in> set item_recs \<Longrightarrow>
           save_results_to_redis user_recs item_recs r (key_related iid) =
             (if related_ids = [] then None
              else Some (map int_of related_ids, Some REDIS_EXPIRE_SECONDS))"
    and "k' \<notin> fst ` set (user_plan user_recs @ item_plan item_recs) \<Longrightarrow>
           save_results_to_redis user_recs item_recs r k' = r k'"
proof -
  let ?plan = "user_plan user_recs @ item_plan item_recs"
  let ?R = "save_results_to_redis user_recs item_recs r"
  show save: "?R = run_commands (plan_commands ?plan) r"
    using save_is_plan [OF ok, of item_recs r] plain by simp
  have dist: "distinct (map fst ?plan)"
    using du di by (rule full_plan_distinct)
  have at: "?R k = cache_value xs" if "(k, xs) \<in> set ?plan" for k xs
  proof -
    from dist that have "map_of ?plan k = Some xs"
      by (rule map_of_is_SomeI)
    then show ?thesis
      by (simp only: save run_commands_plan [OF dist] option.simps)
  qed
  show "?R k' = r k'" if "k' \<notin> fst ` set ?plan"
  proof -
    from that have "map_of ?plan k' = None"
      by (simp only: map_of_eq_None_iff simp_thms)
    then show ?thesis
      by (simp only: save run_commands_plan [OF dist] option.simps)
  qed
  show "key_commands k xs =
      (if xs = [] then [DELETE k] else [DELETE k, RPUSH k xs, EXPIRE k REDIS_EXPIRE_SECONDS])"
    by (simp add: key_commands_def)
  show "?R (key_hist uid) = (if h = [] then None else Some (map int_of h, Some REDIS_EXPIRE_SECONDS))"
    if mem: "(uid, recs) \<in> set user_recs" and h: "map_of recs ''history'' = Some h"
  proof -
    from user_plan_mem [OF mem] h have "(key_hist uid, h) \<in> set ?plan"
      by (simp add: dict_get_def)
    then have "?R (key_hist uid) = cache_value h" by (rule at)
    then show ?thesis by (simp add: cache_value_def)
  qed
  show "?R (key_disc uid) = (if d = [] then None else Some (map int_of d, Some REDIS_EXPIRE_SECONDS))"
    if mem: "(uid, recs) \<in> set user_recs" and d: "map_of recs ''discovery'' = Some d"
  proof -
    from user_plan_mem [OF mem] d have "(key_disc uid, d) \<in> set ?plan"
      by (simp add: dict_get_def)
    then have "?R (key_disc uid) = cache_value d" by (rule at)
    then show ?thesis by (simp add: cache_value_def)
  qed
  show "?R (key_related iid) =
      (if related_ids = [] then None else Some (map int_of related_ids, Some REDIS_EXPIRE_SECONDS))"
    if "(iid, related_ids) \<in> set item_recs"
  proof -
    from that have "(key_related iid, related_ids) \<in> set ?plan"
      by (simp add: item_plan_mem)
    then have "?R (key_related iid) = cache_value related_ids" by (rule at)
    then show ?thesis by (simp add: cache_value_def)
  qed
qed

text \<open>
  A list with a \<^verbatim>\<open>numpy.int64\<close> in it stops the whole publication: the commands of all
  keys are packed before any is sent, so that the cache stays as it was.
\<close>

lemma save_unchanged:
  assumes "user_commands user_recs = Some cmds"
    and "\<not> list_all packable (cmds @ item_commands item_recs)"
  shows "save_results_to_redis user_recs item_recs r = r"
  using assms by (auto simp: save_results_to_redis_def execute_def)

lemma demo_history:
  "get_history_rec demo_engine 1 = [100]" "get_history_rec demo_engine 2 = [100, 200]"
  by (simp_all add: get_history_rec_def demo_engine_def new_engine_def Let_def groupby_list_def
      demo_df_def sort_values_user_score_def less_eq_prod_def dict_get_def
      REC_HISTORY_COUNT_def)

lemma demo_related_for_items:
  "related_for_items demo_engine [100, 200] =
     (demo_item_recs, demo_engine\<lparr>item_id_map_cache := Some [(100, 0), (200, 1)]\<rparr>)"
  by (simp add: get_related_items_def demo_engine_maps Let_def invert_dict_def dict_set_def
      related_try_def demo_similar REC_RELATED_COUNT_def demo_item_recs_def)

lemma demo_main:
  "main (\<lambda>m. Some demo_model) sort_desc_stable (Some demo_table) demo_now demo_now r =
     (Completed, Some (demo_engine\<lparr>item_id_map_cache := Some [(100, 0), (200, 1)]\<rparr>),
      save_results_to_redis demo_user_recs demo_item_recs r)"
proof -
  have ne: "fst (shape demo_matrix) \<noteq> 0"
    by (simp add: demo_matrix_def)
  have users: "unique (map g_user_id demo_df) = [1, 2]"
    and items: "unique (map g_object_id demo_df) = [100, 200]"
    by (simp_all add: demo_df_def)
  show ?thesis
    by (simp add: main_def demo_load ne demo_train Let_def users items demo_related_for_items
        demo_history demo_discovery demo_user_recs_def del: related_for_items.simps)
qed

text \<open>
  C8 fails on the lists that \<open>main\<close> passes to the publisher. In the run on the small batch
  the discovery and related lists consist of \<^verbatim>\<open>numpy.int64\<close> values, the values of
  \<open>item_inv_map\<close>. The commands of all keys are queued, and \<^verbatim>\<open>pipe.execute()\<close> raises while
  it packs them; \<^verbatim>\<open>save_results_to_redis\<close> catches the exception, and nothing has been
  sent. The run completes and the cache is as it was before: the history key of user 1,
  whose new list is \<open>[100]\<close>, still holds the old list without a time-to-live, and the
  discovery key of user 2 still holds its old list.
\<close>

theorem publish_fails_on_numpy_ids:
  "main (\<lambda>m. Some demo_model) sort_desc_stable (Some demo_table) demo_now demo_now old_cache =
     (Completed, Some (demo_engine\<lparr>item_id_map_cache := Some [(100, 0), (200, 1)]\<rparr>),
      save_results_to_redis demo_user_recs demo_item_recs old_cache) \<and>
   map_of demo_user_recs 1 =
     Some [(''history'', [PyInt 100]),
           (''discovery'', map NpInt64 [200, 100, 100, 100, 100, 100, 100, 100])] \<and>
   execute (the (user_commands demo_user_recs) @ item_commands demo_item_recs) old_cache = None \<and>
   save_results_to_redis demo_user_recs demo_item_recs old_cache = old_cache \<and>
   old_cache (key_hist 1) = Some ([300, 400], None) \<and>
   save_results_to_redis demo_user_recs demo_item_recs old_cache (key_hist 1) =
     Some ([300, 400], None) \<and>
   save_results_to_redis demo_user_recs demo_item_recs old_cache (key_disc 2) =
     Some ([300], Some 5) \<and>
   save_results_to_redis demo_user_recs demo_item_recs old_cache (key_related 100) = None"
proof -
  have old: "old_cache (key_hist 1) = Some ([300, 400], None)"
    "old_cache (key_disc 2) = Some ([300], Some 5)"
    "old_cache (key_related 100) = None"
    using key_hist_not_disc [of 1 2] key_user_not_item [of 1 100] key_user_not_item [of 2 100]
    by (auto simp: old_cache_def)
  have ex: "execute (the (user_commands demo_user_recs) @ item_commands demo_item_recs) old_cache
      = None"
    by (simp add: demo_user_recs_def demo_item_recs_def key_commands_def execute_def)
  have same: "save_results_to_redis demo_user_recs demo_item_recs old_cache = old_cache"
    by (simp add: save_results_to_redis_def demo_user_recs_def demo_item_recs_def
        key_commands_def execute_def)
  have recs: "map_of demo_user_recs 1 =
     Some [(''history'', [PyInt 100]),
           (''discovery'', map NpInt64 [200, 100, 100, 100, 100, 100, 100, 100])]"
    by (simp add: demo_user_recs_def)
  from demo_main [of old_cache] recs ex same old show ?thesis
    by (simp only: simp_thms)
qed

subsection \<open>The popularity key\<close>

lemma main_keeps_popular:
  "snd (snd (main fit srt db sql_now now r)) key_popular = r key_popular"
proof (cases "load_and_process db sql_now now new_loader")
  case (Inl e)
  then show ?thesis by (simp add: main_def)
next
  case (Inr res)
  obtain df m ld' where res: "res = (df, m, ld')" by (cases res)
  show ?thesis
  proof (cases "fst (shape m) = 0")
    case True
    with Inr res show ?thesis by (simp add: main_def)
  next
    case False
    show ?thesis
    proof (cases "train fit (new_engine srt (user_id_to_idx ld') (item_idx_to_id ld') df) m")
      case None
      with Inr res False show ?thesis by (simp add: main_def)
    next
      case (Some e)
      with Inr res False show ?thesis
        by (simp add: main_def Let_def split_beta save_keeps_popular)
    qed
  qed
qed

lemma demo_main_completed:
  "fst (main (\<lambda>m. Some demo_model) sort_desc_stable (Some demo_table) demo_now demo_now r) = Completed"
proof -
  have "fst (shape demo_matrix) \<noteq> 0"
    by (simp add: demo_matrix_def)
  then show ?thesis
    by (simp add: main_def demo_load demo_train Let_def split_beta)
qed

lemma demo_popular: "popular_items demo_engine = [100, 200]"
  by (simp add: demo_engine_def popular_items_new_engine demo_totals sort_desc_stable_def)

text \<open>
  C1. The batch job computes the popularity ranking and never writes it: after the
  completed run on the small batch, started with an empty cache, the ranking of the
  engine is \<open>[100, 200]\<close> and the key \<^verbatim>\<open>rec:sys:global:popular\<close> is absent.
\<close>

theorem popular_key_not_published:
  "key_popular = ''rec:sys:global:popular'' \<and>
   fst (main (\<lambda>m. Some demo_model) sort_desc_stable (Some demo_table) demo_now demo_now Map.empty)
     = Completed \<and>
   popular_items demo_engine = [100, 200] \<and>
   get_popular_items demo_engine 10 = [100, 200] \<and>
   snd (snd (main (\<lambda>m. Some demo_model) sort_desc_stable (Some demo_table) demo_now demo_now
     Map.empty)) key_popular = None"
  using main_keeps_popular [of "\<lambda>m. Some demo_model" sort_desc_stable "Some demo_table" demo_now
      demo_now Map.empty]
  by (simp add: demo_main_completed demo_popular get_popular_items_def slice_to_def
      key_popular_def REDIS_KEY_PREFIX_def)

end
